theory Spec2Isabelle
  imports Complex_Main
begin

section \<open>JavaScript numbers\<close>

text \<open>
  The delivery calculator exists in two copies: \<^verbatim>\<open>DeliveryCalculatorClass.js\<close> (rate 0.80,
  minimum 1) and a second, documented copy (rate 20, minimum 500). Both compute on
  JavaScript numbers, the binary64 floating-point numbers. A number is modelled as \<open>NaN\<close>,
  one of the two infinities, or a finite value, which is a rational. The results of
  multiplication and division are rounded to binary64 as the language rounds them: to the
  nearest representable value, a tie to the one with the even mantissa, and to an infinity
  from the upper end of the range on. The sign of zero is not part of the model. \<open>NaN\<close>
  and the infinities propagate as in the language.
\<close>

datatype jsnum = NaN | PosInf | NegInf | Fin rat

text \<open>The number of binary digits of a positive integer.\<close>

function bit_length :: "int \<Rightarrow> int" where
  "bit_length n = (if n \<le> 0 then 0 else 1 + bit_length (n div 2))"
  by pat_completeness auto
termination
  by (relation "measure nat") auto

declare bit_length.simps [simp del]

text \<open>The exponent \<open>e\<close> of a positive rational: \<open>2 powi e \<le> x < 2 powi (e + 1)\<close>.\<close>

definition ilog2 :: "rat \<Rightarrow> int" where
  "ilog2 x =
     (if 1 \<le> x then bit_length \<lfloor>x\<rfloor> - 1
      else - bit_length (\<lceil>1 / x\<rceil> - 1))"

text \<open>Rounding to the nearest integer, a tie to the even one.\<close>

definition round_half_even :: "rat \<Rightarrow> int" where
  "round_half_even q =
     (let f = \<lfloor>q\<rfloor>; d = q - of_int f
      in if d < 1 / 2 then f else if 1 / 2 < d then f + 1 else if even f then f else f + 1)"

text \<open>
  Rounding to binary64. The mantissa has 53 binary digits, so the unit of the last place
  of a value with exponent \<open>E\<close> is \<open>2 powi (E - 52)\<close>, and never less than
  \<open>2 powi (- 1074)\<close>, the smallest positive number. The value is rounded to a multiple of
  that unit. A result that reaches \<open>2 ^ 1024\<close> is an infinity.
\<close>

definition round64 :: "rat \<Rightarrow> jsnum" where
  "round64 x =
     (if x = 0 then Fin 0
      else let e = max (ilog2 \<bar>x\<bar> - 52) (- 1074);
               m = round_half_even (\<bar>x\<bar> * 2 powi (- e))
           in if 971 < e \<or> (e = 971 \<and> m = 2 ^ 53) then (if 0 < x then PosInf else NegInf)
              else Fin ((if x < 0 then - 1 else 1) * of_int m * 2 powi e))"

text \<open>The argument type documented for the formatters: \<^verbatim>\<open>{number|null|undefined}\<close>.\<close>

datatype jsval = Undefined | Null | Number jsnum

text \<open>\<^verbatim>\<open>isNaN\<close> on a number.\<close>

fun js_isNaN :: "jsnum \<Rightarrow> bool" where
  "js_isNaN NaN = True"
| "js_isNaN _ = False"

text \<open>\<^verbatim>\<open>a >= b\<close> and \<^verbatim>\<open>a > b\<close>: false as soon as one side is \<open>NaN\<close>.\<close>

fun js_ge :: "jsnum \<Rightarrow> jsnum \<Rightarrow> bool" where
  "js_ge NaN _ = False"
| "js_ge _ NaN = False"
| "js_ge PosInf _ = True"
| "js_ge _ NegInf = True"
| "js_ge NegInf _ = False"
| "js_ge _ PosInf = False"
| "js_ge (Fin a) (Fin b) = (b \<le> a)"

fun js_gt :: "jsnum \<Rightarrow> jsnum \<Rightarrow> bool" where
  "js_gt NaN _ = False"
| "js_gt _ NaN = False"
| "js_gt NegInf _ = False"
| "js_gt _ PosInf = False"
| "js_gt PosInf _ = True"
| "js_gt _ NegInf = True"
| "js_gt (Fin a) (Fin b) = (b < a)"

text \<open>\<^verbatim>\<open>Math.max(a, b)\<close>: \<open>NaN\<close> if either argument is, else the larger one.\<close>

fun js_max :: "jsnum \<Rightarrow> jsnum \<Rightarrow> jsnum" where
  "js_max NaN _ = NaN"
| "js_max _ NaN = NaN"
| "js_max PosInf _ = PosInf"
| "js_max _ PosInf = PosInf"
| "js_max NegInf b = b"
| "js_max a NegInf = a"
| "js_max (Fin a) (Fin b) = Fin (max a b)"

text \<open>\<^verbatim>\<open>Math.floor\<close>, and \<^verbatim>\<open>Math.round\<close>, which rounds a tie towards plus infinity.\<close>

fun js_floor :: "jsnum \<Rightarrow> jsnum" where
  "js_floor (Fin a) = Fin (of_int \<lfloor>a\<rfloor>)"
| "js_floor n = n"

fun js_round :: "jsnum \<Rightarrow> jsnum" where
  "js_round (Fin a) = Fin (of_int \<lfloor>a + 1 / 2\<rfloor>)"
| "js_round n = n"

text \<open>\<^verbatim>\<open>a * b\<close>: the rounded product; an infinity times zero is \<open>NaN\<close>.\<close>

definition inf_of_sign :: "bool \<Rightarrow> jsnum" where
  "inf_of_sign positive = (if positive then PosInf else NegInf)"

fun js_mul :: "jsnum \<Rightarrow> jsnum \<Rightarrow> jsnum" where
  "js_mul NaN _ = NaN"
| "js_mul _ NaN = NaN"
| "js_mul (Fin a) (Fin b) = round64 (a * b)"
| "js_mul PosInf PosInf = PosInf"
| "js_mul PosInf NegInf = NegInf"
| "js_mul NegInf PosInf = NegInf"
| "js_mul NegInf NegInf = PosInf"
| "js_mul PosInf (Fin b) = (if b = 0 then NaN else inf_of_sign (0 < b))"
| "js_mul NegInf (Fin b) = (if b = 0 then NaN else inf_of_sign (b < 0))"
| "js_mul (Fin a) PosInf = (if a = 0 then NaN else inf_of_sign (0 < a))"
| "js_mul (Fin a) NegInf = (if a = 0 then NaN else inf_of_sign (a < 0))"

text \<open>
  \<^verbatim>\<open>a / b\<close>: the rounded quotient. Every divisor in the source is a positive constant; a
  zero divisor is read as positive zero.
\<close>

fun js_div :: "jsnum \<Rightarrow> jsnum \<Rightarrow> jsnum" where
  "js_div NaN _ = NaN"
| "js_div _ NaN = NaN"
| "js_div (Fin a) (Fin b) =
     (if b = 0 then (if a = 0 then NaN else inf_of_sign (0 < a)) else round64 (a / b))"
| "js_div (Fin a) PosInf = Fin 0"
| "js_div (Fin a) NegInf = Fin 0"
| "js_div PosInf (Fin b) = inf_of_sign (0 \<le> b)"
| "js_div NegInf (Fin b) = inf_of_sign (b < 0)"
| "js_div _ _ = NaN"

text \<open>
  \<^verbatim>\<open>a % b\<close>: the remainder of the truncating division, with the sign of the dividend;
  \<open>NaN\<close> for an infinite dividend or a zero divisor; the dividend itself for an infinite
  divisor. The remainder of two binary64 numbers is a binary64 number: nothing is rounded.
\<close>

definition trunc_rat :: "rat \<Rightarrow> int" where
  "trunc_rat q = (if 0 \<le> q then \<lfloor>q\<rfloor> else \<lceil>q\<rceil>)"

fun js_mod :: "jsnum \<Rightarrow> jsnum \<Rightarrow> jsnum" where
  "js_mod NaN _ = NaN"
| "js_mod _ NaN = NaN"
| "js_mod PosInf _ = NaN"
| "js_mod NegInf _ = NaN"
| "js_mod (Fin a) PosInf = Fin a"
| "js_mod (Fin a) NegInf = Fin a"
| "js_mod (Fin a) (Fin b) = (if b = 0 then NaN else Fin (a - b * of_int (trunc_rat (a / b))))"

section \<open>Pricing\<close>

text \<open>
  \<^verbatim>\<open>priceForKm\<close> of \<^verbatim>\<open>DeliveryCalculatorClass.js\<close> and \<^verbatim>\<open>buildPrice\<close> of the documented
  copy are the same expression \<^verbatim>\<open>Math.max(kmRounded * DELIVERY_TARIF, MINIMUM_COST)\<close> over
  different constants. The literal \<^verbatim>\<open>0.80\<close> denotes the binary64 number nearest to 4/5.
\<close>

definition DELIVERY_TARIF :: rat where
  "DELIVERY_TARIF = 3602879701896397 / 4503599627370496"

definition MINIMUM_COST :: rat where
  "MINIMUM_COST = 1"

definition priceForKm :: "jsnum \<Rightarrow> jsnum" where
  "priceForKm kmRounded = js_max (js_mul kmRounded (Fin DELIVERY_TARIF)) (Fin MINIMUM_COST)"

definition DELIVERY_TARIF2 :: rat where
  "DELIVERY_TARIF2 = 20"

definition MINIMUM_COST2 :: rat where
  "MINIMUM_COST2 = 500"

definition buildPrice :: "jsnum \<Rightarrow> jsnum" where
  "buildPrice kmRounded = js_max (js_mul kmRounded (Fin DELIVERY_TARIF2)) (Fin MINIMUM_COST2)"

section \<open>Strings of numbers\<close>

text \<open>
  Strings are lists of bytes. The two characters of the source outside ASCII are written as
  their UTF-8 bytes: the em dash used as placeholder and the lari sign after a price.
\<close>

definition em_dash :: string where
  "em_dash = [CHR 0xE2, CHR 0x80, CHR 0x94]"

definition lari :: string where
  "lari = [CHR 0xE2, CHR 0x82, CHR 0xBE]"

definition digit_char :: "nat \<Rightarrow> char" where
  "digit_char d = ''0123456789'' ! d"

definition is_digit :: "char \<Rightarrow> bool" where
  "is_digit c = (c \<in> set ''0123456789'')"

text \<open>The decimal digits of a natural number, without leading zeros.\<close>

fun nat_to_string :: "nat \<Rightarrow> string" where
  "nat_to_string n =
     (if n < 10 then [digit_char n] else nat_to_string (n div 10) @ [digit_char (n mod 10)])"

declare nat_to_string.simps [simp del]

text \<open>
  The conversion of a number to a string, as \<^verbatim>\<open>+\<close> with a string operand performs it. It is
  modelled for \<open>NaN\<close>, the infinities and the integers below \<open>10 ^ 21\<close> in magnitude, which
  print as plain digits. From \<open>10 ^ 21\<close> on, and for fractions, the language prints the
  shortest digits that read back as the same double, in exponent notation where needed;
  that output depends on the binary64 value and lies outside this model, so the theorems
  about rendered text carry the bound.
\<close>

fun number_to_string :: "jsnum \<Rightarrow> string" where
  "number_to_string NaN = ''NaN''"
| "number_to_string PosInf = ''Infinity''"
| "number_to_string NegInf = ''-Infinity''"
| "number_to_string (Fin q) = (if q < 0 then ''-'' else []) @ nat_to_string (nat \<bar>\<lfloor>q\<rfloor>\<bar>)"

text \<open>
  \<^verbatim>\<open>x.toFixed(digits)\<close>. It throws a \<^verbatim>\<open>RangeError\<close> for fewer than 0 or more than 100
  digits. A value that is not finite prints as \<^verbatim>\<open>+\<close> prints it; a magnitude from
  \<open>10 ^ 21\<close> on does too; otherwise the integer \<open>n\<close> nearest to \<open>\<bar>x\<bar>\<close> times the power of
  ten (the larger one on a tie) is printed, filled with zeros from the left to one digit
  more than \<open>digits\<close>, and with a point before its last \<open>digits\<close> digits.
\<close>

datatype js_error = RangeError

definition fixed_text :: "nat \<Rightarrow> nat \<Rightarrow> string" where
  "fixed_text f n =
     (let m = nat_to_string n;
          padded = replicate (Suc f - length m) CHR ''0'' @ m
      in if f = 0 then m
         else take (length padded - f) padded @ ''.'' @ drop (length padded - f) padded)"

fun toFixed :: "int \<Rightarrow> jsnum \<Rightarrow> js_error + string" where
  "toFixed digits (Fin x) =
     (if digits < 0 \<or> 100 < digits then Inl RangeError
      else if 10 ^ 21 \<le> \<bar>x\<bar> then Inr (number_to_string (Fin x))
      else let n = nat \<lfloor>\<bar>x\<bar> * 10 ^ nat digits + 1 / 2\<rfloor>
           in Inr ((if x < 0 then ''-'' else []) @ fixed_text (nat digits) n))"
| "toFixed digits n =
     (if digits < 0 \<or> 100 < digits then Inl RangeError else Inr (number_to_string n))"

section \<open>Formatters\<close>

text \<open>
  \<^verbatim>\<open>fmtMoney\<close> (only in \<^verbatim>\<open>DeliveryCalculatorClass.js\<close>): the placeholder for \<^verbatim>\<open>null\<close>,
  \<^verbatim>\<open>undefined\<close> and \<open>NaN\<close>, else \<^verbatim>\<open>(Math.round(v * 100) / 100).toFixed(2)\<close>. The function
  is private to the module, which calls it with the price, a number. \<open>Inl\<close> is an
  exception thrown.
\<close>

fun fmtMoney :: "jsval \<Rightarrow> js_error + string" where
  "fmtMoney Undefined = Inr em_dash"
| "fmtMoney Null = Inr em_dash"
| "fmtMoney (Number v) =
     (if js_isNaN v then Inr em_dash
      else toFixed 2 (js_div (js_round (js_mul v (Fin 100))) (Fin 100)))"

text \<open>
  \<^verbatim>\<open>fmtSeconds\<close> of \<^verbatim>\<open>DeliveryCalculatorClass.js\<close> and \<^verbatim>\<open>formatSecondsToHm\<close> of the documented
  copy. The result \<open>None\<close> is \<^verbatim>\<open>null\<close>.
\<close>

fun fmtSeconds :: "jsval \<Rightarrow> string option" where
  "fmtSeconds Undefined = None"
| "fmtSeconds Null = None"
| "fmtSeconds (Number sec0) =
     (if js_isNaN sec0 then None
      else let sec = js_max (Fin 0) (js_floor sec0);
               h = js_floor (js_div sec (Fin 3600));
               m = js_floor (js_div (js_mod sec (Fin 3600)) (Fin 60))
           in Some ((if js_gt h (Fin 0) then number_to_string h @ '' h '' else []) @
                    number_to_string m @ '' min''))"

fun formatSecondsToHm :: "jsval \<Rightarrow> string option" where
  "formatSecondsToHm Undefined = None"
| "formatSecondsToHm Null = None"
| "formatSecondsToHm (Number sec0) =
     (if js_isNaN sec0 then None
      else let sec = js_max (Fin 0) (js_floor sec0);
               h = js_floor (js_div sec (Fin 3600));
               m = js_floor (js_div (js_mod sec (Fin 3600)) (Fin 60))
           in Some ((if js_gt h (Fin 0) then number_to_string h @ '' h '' else []) @
                    number_to_string m @ '' min''))"

section \<open>Duration extraction\<close>

text \<open>
  What the routing provider hands over can be any value. Beside the numbers, \<^verbatim>\<open>null\<close>
  and \<^verbatim>\<open>undefined\<close> there are booleans, strings and objects with named fields.
\<close>

datatype jsany = Plain jsval | Boolean bool | String string | Object "(string \<times> jsany) list"

text \<open>Truthiness, as \<^verbatim>\<open>dur && ...\<close> tests it.\<close>

fun truthy :: "jsany \<Rightarrow> bool" where
  "truthy (Plain Undefined) = False"
| "truthy (Plain Null) = False"
| "truthy (Plain (Number NaN)) = False"
| "truthy (Plain (Number (Fin q))) = (q \<noteq> 0)"
| "truthy (Plain (Number _)) = True"
| "truthy (Boolean b) = b"
| "truthy (String s) = (s \<noteq> [])"
| "truthy (Object _) = True"

text \<open>
  Reading the field \<^verbatim>\<open>value\<close> or \<^verbatim>\<open>duration\<close> of a value that is neither \<^verbatim>\<open>null\<close> nor
  \<^verbatim>\<open>undefined\<close>: an object gives what it stores under the name, every other value
  \<^verbatim>\<open>undefined\<close>.
\<close>

fun get_field :: "jsany \<Rightarrow> string \<Rightarrow> jsany" where
  "get_field (Object fields) name =
     (case map_of fields name of Some v \<Rightarrow> v | None \<Rightarrow> Plain Undefined)"
| "get_field _ name = Plain Undefined"

text \<open>\<^verbatim>\<open>typeof x === 'number'\<close>, giving the number.\<close>

fun as_number :: "jsany \<Rightarrow> jsnum option" where
  "as_number (Plain (Number n)) = Some n"
| "as_number _ = None"

text \<open>\<^verbatim>\<open>typeof x === 'number' && x >= 0\<close>, giving the number.\<close>

definition as_nonneg_number :: "jsany \<Rightarrow> jsnum option" where
  "as_nonneg_number x =
     (case as_number x of Some n \<Rightarrow> (if js_ge n (Fin 0) then Some n else None) | None \<Rightarrow> None)"

text \<open>
  The router object of a computed route. An accessor that is not a function is \<open>None\<close>; one
  that is a function either returns a value or throws. \<open>properties_get\<close> is the call
  \<^verbatim>\<open>router.properties.get('duration')\<close>, and \<open>None\<close> when \<^verbatim>\<open>router.properties\<close> is falsy
  or has no function \<^verbatim>\<open>get\<close>. \<open>getPaths\<close> names the geometry of the route.
\<close>

datatype 'a outcome = Returns 'a | Throws

record router =
  getLength :: jsnum
  getJamsTime :: "jsany outcome option"
  getTime :: "jsany outcome option"
  properties_get :: "jsany outcome option"
  getPaths :: nat

text \<open>
  The first \<^verbatim>\<open>try\<close> block of \<^verbatim>\<open>getDurationSeconds\<close>: the jam-aware time, then the plain
  travel time. An exception of either call leaves the block. \<open>None\<close> is falling through.
\<close>

definition direct_time :: "router \<Rightarrow> jsnum option" where
  "direct_time r =
     (case getTime r of
        Some (Returns t) \<Rightarrow> as_nonneg_number t
      | _ \<Rightarrow> None)"

definition direct_methods :: "router \<Rightarrow> jsnum option" where
  "direct_methods r =
     (case getJamsTime r of
        None \<Rightarrow> direct_time r
      | Some Throws \<Rightarrow> None
      | Some (Returns jt) \<Rightarrow>
          (case as_nonneg_number jt of Some n \<Rightarrow> Some n | None \<Rightarrow> direct_time r))"

text \<open>The second \<^verbatim>\<open>try\<close> block: the \<^verbatim>\<open>duration\<close> property.\<close>

definition properties_blob :: "router \<Rightarrow> jsnum option" where
  "properties_blob r =
     (case properties_get r of
        Some (Returns dur) \<Rightarrow>
          (if truthy dur \<and> as_number (get_field dur ''value'') \<noteq> None
           then as_number (get_field dur ''value'')
           else if truthy dur \<and> as_number (get_field dur ''duration'') \<noteq> None
           then as_number (get_field dur ''duration'')
           else None)
      | _ \<Rightarrow> None)"

text \<open>The fallback: \<^verbatim>\<open>Math.round((lengthMeters / 1000) / 40 * 3600)\<close>.\<close>

definition fallback_seconds :: "jsnum \<Rightarrow> jsnum" where
  "fallback_seconds lengthMeters =
     js_round (js_mul (js_div (js_div lengthMeters (Fin 1000)) (Fin 40)) (Fin 3600))"

definition getDurationSeconds :: "router \<Rightarrow> jsnum \<Rightarrow> jsnum" where
  "getDurationSeconds r lengthMeters =
     (case direct_methods r of
        Some n \<Rightarrow> n
      | None \<Rightarrow>
          (case properties_blob r of
             Some n \<Rightarrow> n
           | None \<Rightarrow> fallback_seconds lengthMeters))"

text \<open>
  The probe order in the words of the specification: the results of the jam-aware time,
  the plain travel time, the \<^verbatim>\<open>value\<close> field and the \<^verbatim>\<open>duration\<close> field of the duration
  property, in this order; the first one that is a non-negative number is returned, and
  the fallback when there is none. An accessor that is missing or throws has no result.
\<close>

definition call_result :: "jsany outcome option \<Rightarrow> jsany option" where
  "call_result a = (case a of Some (Returns x) \<Rightarrow> Some x | _ \<Rightarrow> None)"

definition duration_field :: "router \<Rightarrow> string \<Rightarrow> jsany option" where
  "duration_field r name =
     (case call_result (properties_get r) of
        Some dur \<Rightarrow> (if truthy dur then Some (get_field dur name) else None)
      | None \<Rightarrow> None)"

definition probes :: "router \<Rightarrow> jsany option list" where
  "probes r =
     [call_result (getJamsTime r), call_result (getTime r),
      duration_field r ''value'', duration_field r ''duration'']"

fun first_nonneg_number :: "jsany option list \<Rightarrow> jsnum option" where
  "first_nonneg_number [] = None"
| "first_nonneg_number (None # ps) = first_nonneg_number ps"
| "first_nonneg_number (Some x # ps) =
     (case as_nonneg_number x of Some n \<Rightarrow> Some n | None \<Rightarrow> first_nonneg_number ps)"

definition probe_order_spec :: "router \<Rightarrow> jsnum \<Rightarrow> jsnum" where
  "probe_order_spec r lengthMeters =
     (case first_nonneg_number (probes r) of
        Some n \<Rightarrow> n
      | None \<Rightarrow> fallback_seconds lengthMeters)"

text \<open>
  The numeric field that the second block would return is a non-negative number. (The
  block returns the first of \<^verbatim>\<open>value\<close> and \<^verbatim>\<open>duration\<close> that is a number.)
\<close>

definition blob_nonneg :: "router \<Rightarrow> bool" where
  "blob_nonneg r =
     (case properties_blob r of Some n \<Rightarrow> js_ge n (Fin 0) | None \<Rightarrow> True)"

text \<open>A router whose jam-aware time throws, with the plain travel time taken away.\<close>

definition skip_time_on_throw :: "router \<Rightarrow> router" where
  "skip_time_on_throw r = (if getJamsTime r = Some Throws then r\<lparr>getTime := None\<rparr> else r)"

section \<open>The info panel\<close>

text \<open>
  The three text slots of the page; \<open>None\<close> is a slot that the page does not have. The
  writes of \<^verbatim>\<open>updatePanel\<close> skip a missing slot.
\<close>

record panel =
  distanceVal :: "string option"
  timeVal :: "string option"
  costVal :: "string option"

text \<open>\<^verbatim>\<open>x || '\<emdash>'\<close> on a string, and on the result of a duration formatter.\<close>

definition or_dash :: "string \<Rightarrow> string" where
  "or_dash t = (if t = [] then em_dash else t)"

definition opt_or_dash :: "string option \<Rightarrow> string" where
  "opt_or_dash t = (case t of None \<Rightarrow> em_dash | Some x \<Rightarrow> or_dash x)"

text \<open>
  \<^verbatim>\<open>updatePanel(distanceText, seconds, price)\<close> of \<^verbatim>\<open>DeliveryCalculatorClass.js\<close>. Its
  body is one \<^verbatim>\<open>try\<close> block: an exception of \<^verbatim>\<open>fmtMoney\<close> would leave the cost slot as it
  was, after the other two slots are written.
\<close>

definition updatePanel :: "string \<Rightarrow> jsval \<Rightarrow> jsval \<Rightarrow> panel \<Rightarrow> panel" where
  "updatePanel distanceText seconds price p =
     p\<lparr>distanceVal := map_option (\<lambda>_. or_dash distanceText) (distanceVal p),
       timeVal := map_option
         (\<lambda>_. if seconds \<noteq> Null \<and> seconds \<noteq> Undefined then opt_or_dash (fmtSeconds seconds)
              else em_dash) (timeVal p),
       costVal :=
         (case (if price \<noteq> Null \<and> price \<noteq> Undefined then fmtMoney price else Inr em_dash) of
            Inr t \<Rightarrow> map_option (\<lambda>_. t @ '' '' @ lari) (costVal p)
          | Inl _ \<Rightarrow> costVal p)\<rparr>"

text \<open>
  \<^verbatim>\<open>updatePanel(distanceText, price, seconds)\<close> of the documented copy: the time slot tests
  \<^verbatim>\<open>seconds || seconds === 0\<close>, and the price is appended as the number it is.
\<close>

fun truthy_or_zero :: "jsval \<Rightarrow> bool" where
  "truthy_or_zero (Number (Fin q)) = True"
| "truthy_or_zero (Number NaN) = False"
| "truthy_or_zero (Number _) = True"
| "truthy_or_zero _ = False"

fun value_to_string :: "jsval \<Rightarrow> string" where
  "value_to_string (Number n) = number_to_string n"
| "value_to_string Null = ''null''"
| "value_to_string Undefined = ''undefined''"

definition updatePanel2 :: "string \<Rightarrow> jsval \<Rightarrow> jsval \<Rightarrow> panel \<Rightarrow> panel" where
  "updatePanel2 distanceText price seconds p =
     p\<lparr>distanceVal := map_option (\<lambda>_. or_dash distanceText) (distanceVal p),
       timeVal := map_option
         (\<lambda>_. if truthy_or_zero seconds then opt_or_dash (formatSecondsToHm seconds)
              else em_dash) (timeVal p),
       costVal := map_option
         (\<lambda>_. (if price \<noteq> Null \<and> price \<noteq> Undefined then value_to_string price else em_dash) @
              '' '' @ lari) (costVal p)\<rparr>"

section \<open>The calculator\<close>

text \<open>
  The calculator talks to the map SDK and to the routing provider through calls. Each call
  that the SDK carried out is logged; a call may also throw. Which calls the SDK carries
  out, and the text that \<^verbatim>\<open>ymaps.formatter.distance\<close> gives for a length, belong to the
  environment.
\<close>

type_synonym coords = "rat \<times> rat"

datatype role = Start | Finish

datatype copy = Class_js | Part_000

text \<open>
  The calls, in the order of their first use in the source:
  \<^verbatim>\<open>new ymaps.Placemark(coords, ...)\<close>, \<^verbatim>\<open>map.geoObjects.add(placemark)\<close>,
  \<^verbatim>\<open>placemark.events.add('dragend', ...)\<close>, \<^verbatim>\<open>placemark.geometry.setCoordinates(coords)\<close>,
  \<^verbatim>\<open>ymaps.route([start, finish])\<close> (with the number of the deferred of the request),
  \<^verbatim>\<open>map.geoObjects.remove(route)\<close>, \<^verbatim>\<open>route.options.set({...})\<close>,
  \<^verbatim>\<open>map.geoObjects.add(route)\<close>, \<^verbatim>\<open>placemark.properties.set('balloonContentBody', text)\<close>,
  \<^verbatim>\<open>map.setBounds(route.getBounds(), ...)\<close>, \<^verbatim>\<open>placemark.balloon.open()\<close> and
  \<^verbatim>\<open>placemark.balloon.autoPan()\<close>. A route is named by the geometry of its router.
\<close>

datatype sdk_call =
    NewPlacemark role coords
  | AddPlacemark role
  | ListenDragend role
  | SetCoordinates role coords
  | RouteRequest nat coords coords
  | RemoveRoute nat
  | StyleRoute nat
  | AddRoute nat
  | SetBalloonBody role string
  | SetBounds nat
  | OpenBalloon role
  | AutoPan role

record env =
  sdk :: "sdk_call \<Rightarrow> bool"
  formatter_distance :: "jsnum \<Rightarrow> string"

text \<open>A deferred of the promise library: pending until it is resolved or rejected.\<close>

datatype status = Pending | Fulfilled | Rejected

text \<open>
  The fields of a \<^verbatim>\<open>DeliveryCalculator\<close>. A placemark is the coordinates it stands at. The
  deferreds are numbered in the order of their creation, and \<open>deferred\<close> holds the number
  of the current one. \<open>requests\<close> are the route requests that the provider has not answered
  yet, each with what its two callbacks captured: the number of its deferred and the two
  balloon texts. \<open>calls\<close> is the log of the calls carried out.
\<close>

record calculator =
  startPoint :: "coords option"
  finishPoint :: "coords option"
  route :: "nat option"
  router :: "router option"
  startPointBalloonContent :: string
  finishPointBalloonContent :: string
  deferred :: "nat option"
  deferreds :: "nat \<Rightarrow> status option"
  issued :: nat
  requests :: "(nat \<times> string \<times> string) list"
  calls :: "sdk_call list"
  panel :: panel

definition init :: "panel \<Rightarrow> calculator" where
  "init page =
     \<lparr>startPoint = None, finishPoint = None, route = None, router = None,
      startPointBalloonContent = [], finishPointBalloonContent = [],
      deferred = None, deferreds = Map.empty, issued = 0, requests = [], calls = [],
      panel = page\<rparr>"

text \<open>
  A handler either runs to its end or stops at an exception that nothing caught; both
  leave a calculator behind.
\<close>

datatype 'a result = Done 'a | Raised 'a

fun state_of :: "'a result \<Rightarrow> 'a" where
  "state_of (Done s) = s"
| "state_of (Raised s) = s"

type_synonym handler = "calculator \<Rightarrow> calculator result"

fun seq :: "handler list \<Rightarrow> handler" where
  "seq [] s = Done s"
| "seq (f # fs) s = (case f s of Done s' \<Rightarrow> seq fs s' | Raised s' \<Rightarrow> Raised s')"

text \<open>\<^verbatim>\<open>try { ... } catch (e) {}\<close>\<close>

definition try_catch :: "handler \<Rightarrow> handler" where
  "try_catch f s = Done (state_of (f s))"

definition upd :: "(calculator \<Rightarrow> calculator) \<Rightarrow> handler" where
  "upd g s = Done (g s)"

definition placemark :: "role \<Rightarrow> calculator \<Rightarrow> coords option" where
  "placemark which s = (case which of Start \<Rightarrow> startPoint s | Finish \<Rightarrow> finishPoint s)"

definition set_placemark :: "role \<Rightarrow> coords \<Rightarrow> calculator \<Rightarrow> calculator" where
  "set_placemark which pos s =
     (case which of Start \<Rightarrow> s\<lparr>startPoint := Some pos\<rparr> | Finish \<Rightarrow> s\<lparr>finishPoint := Some pos\<rparr>)"

text \<open>
  The calls made on \<^verbatim>\<open>this._startPoint\<close> or \<^verbatim>\<open>this._finishPoint\<close>: they throw when the
  field is still \<^verbatim>\<open>null\<close>.
\<close>

fun target :: "sdk_call \<Rightarrow> role option" where
  "target (SetCoordinates which _) = Some which"
| "target (SetBalloonBody which _) = Some which"
| "target (OpenBalloon which) = Some which"
| "target (AutoPan which) = Some which"
| "target _ = None"

definition call :: "env \<Rightarrow> sdk_call \<Rightarrow> handler" where
  "call e c s =
     (if (case target c of Some which \<Rightarrow> placemark which s = None | None \<Rightarrow> False) then Raised s
      else if sdk e c then Done (s\<lparr>calls := calls s @ [c]\<rparr>)
      else Raised s)"

subsection \<open>Issuing a route request\<close>

text \<open>
  \<^verbatim>\<open>_setupRoute\<close> up to the call of the provider: nothing happens without both points;
  otherwise the current deferred is rejected if it is still pending, a new one takes its
  place, and the request goes out with the two callbacks. (The source rejects the current
  deferred unless \<^verbatim>\<open>isResolved()\<close>; rejecting a deferred that is no longer pending has no
  effect, so only a pending one changes in either reading of \<^verbatim>\<open>isResolved\<close>.)
\<close>

definition reject_pending :: "calculator \<Rightarrow> calculator" where
  "reject_pending s =
     (case deferred s of
        Some d \<Rightarrow>
          (if deferreds s d = Some Pending then s\<lparr>deferreds := (deferreds s)(d \<mapsto> Rejected)\<rparr>
           else s)
      | None \<Rightarrow> s)"

definition new_deferred :: "calculator \<Rightarrow> calculator" where
  "new_deferred s =
     s\<lparr>deferred := Some (issued s), deferreds := (deferreds s)(issued s \<mapsto> Pending),
       issued := Suc (issued s)\<rparr>"

definition setupRoute :: "env \<Rightarrow> handler" where
  "setupRoute e s =
     (case startPoint s of
        None \<Rightarrow> Done s
      | Some start \<Rightarrow>
          (case finishPoint s of
             None \<Rightarrow> Done s
           | Some finish \<Rightarrow>
               (let startBalloon = startPointBalloonContent s;
                    finishBalloon = finishPointBalloonContent s;
                    d = issued s
                in seq [upd reject_pending,
                        upd new_deferred,
                        call e (RouteRequest d start finish),
                        upd (\<lambda>s. s\<lparr>requests := requests s @ [(d, startBalloon, finishBalloon)]\<rparr>)]
                     s)))"

subsection \<open>The callbacks of a request\<close>

definition resolve :: "nat \<Rightarrow> calculator \<Rightarrow> calculator" where
  "resolve d s =
     (if deferreds s d = Some Pending then s\<lparr>deferreds := (deferreds s)(d \<mapsto> Fulfilled)\<rparr>
      else s)"

definition span_open :: string where
  \<open>span_open = ''<span style="font-weight: bold; font-style: italic">Cost of delivery: ''\<close>

definition balloon_message :: "string \<Rightarrow> string \<Rightarrow> string" where
  "balloon_message distanceText priceText =
     ''<span>Distance: '' @ distanceText @ ''.</span><br/>'' @
     span_open @ priceText @ '' '' @ lari @ ''</span>''"

text \<open>
  \<^verbatim>\<open>balloon.open().then(function () { ... autoPan() })\<close>: the chained function runs when the
  balloon has opened, and not before the callback that opened it has ended; it is taken
  to run right then. It runs only if the opening was carried out, that is if the finish
  point is there and the SDK carries the opening out. An exception in it stays inside the
  promise.
\<close>

definition chained_autoPan :: "env \<Rightarrow> handler" where
  "chained_autoPan e s =
     (if placemark Finish s \<noteq> None \<and> sdk e (OpenBalloon Finish)
      then try_catch (call e (AutoPan Finish)) s else Done s)"

text \<open>A step that needs a text whose computation may throw.\<close>

definition with_text :: "js_error + string \<Rightarrow> (string \<Rightarrow> handler) \<Rightarrow> handler" where
  "with_text t f s = (case t of Inl _ \<Rightarrow> Raised s | Inr txt \<Rightarrow> f txt s)"

text \<open>
  The success callback of \<^verbatim>\<open>DeliveryCalculatorClass.js\<close>, for a request that captured the
  deferred \<open>d\<close> and the balloon texts. The text of the price is computed outside every
  \<^verbatim>\<open>try\<close> block, after the route is added to the map: an exception there would end the
  callback.
\<close>

definition route_found_class :: "env \<Rightarrow> nat \<times> string \<times> string \<Rightarrow> router \<Rightarrow> handler" where
  "route_found_class e captured r s =
     (case captured of (d, startBalloon, finishBalloon) \<Rightarrow>
        if deferreds s d = Some Rejected then Done s
        else
          let lengthMeters = getLength r;
              distanceText = formatter_distance e lengthMeters;
              kmRounded = js_round (js_div lengthMeters (Fin 1000));
              price = priceForKm kmRounded;
              seconds = getDurationSeconds r lengthMeters
          in seq [(\<lambda>s. case route s of
                         Some old \<Rightarrow>
                           seq [try_catch (call e (RemoveRoute old)), upd (\<lambda>s. s\<lparr>route := None\<rparr>)] s
                       | None \<Rightarrow> Done s),
                  upd (\<lambda>s. s\<lparr>router := Some r\<rparr>),
                  upd (\<lambda>s. s\<lparr>route := Some (getPaths r)\<rparr>),
                  call e (StyleRoute (getPaths r)),
                  call e (AddRoute (getPaths r)),
                  with_text (fmtMoney (Number price))
                    (\<lambda>priceText.
                       try_catch
                         (seq [call e (SetBalloonBody Start
                                 (startBalloon @ balloon_message distanceText priceText)),
                               call e (SetBalloonBody Finish
                                 (finishBalloon @ balloon_message distanceText priceText))])),
                  upd (\<lambda>s. s\<lparr>panel := updatePanel distanceText (Number seconds) (Number price) (panel s)\<rparr>),
                  try_catch (call e (SetBounds (getPaths r))),
                  try_catch (call e (OpenBalloon Finish)),
                  upd (resolve d),
                  chained_autoPan e]
               s)"

text \<open>\<^verbatim>\<open>clearRoute\<close> and the success callback of the documented copy.\<close>

definition clearRoute :: "env \<Rightarrow> handler" where
  "clearRoute e =
     seq [(\<lambda>s. case route s of
                 Some old \<Rightarrow>
                   seq [try_catch (call e (RemoveRoute old)), upd (\<lambda>s. s\<lparr>route := None\<rparr>)] s
               | None \<Rightarrow> Done s),
          upd (\<lambda>s. s\<lparr>router := None\<rparr>)]"

definition route_found_part :: "env \<Rightarrow> nat \<times> string \<times> string \<Rightarrow> router \<Rightarrow> handler" where
  "route_found_part e captured r s =
     (case captured of (d, startBalloon, finishBalloon) \<Rightarrow>
        if deferreds s d = Some Rejected then Done s
        else
          let lengthMeters = getLength r;
              distanceText = formatter_distance e lengthMeters;
              kmRounded = js_round (js_div lengthMeters (Fin 1000));
              price = buildPrice kmRounded;
              seconds = getDurationSeconds r lengthMeters;
              message = balloon_message distanceText (number_to_string price)
          in seq [clearRoute e,
                  upd (\<lambda>s. s\<lparr>router := Some r\<rparr>),
                  upd (\<lambda>s. s\<lparr>route := Some (getPaths r)\<rparr>),
                  call e (StyleRoute (getPaths r)),
                  call e (AddRoute (getPaths r)),
                  try_catch (seq [call e (SetBalloonBody Start (startBalloon @ message)),
                                  call e (SetBalloonBody Finish (finishBalloon @ message))]),
                  try_catch (call e (OpenBalloon Finish)),
                  upd (\<lambda>s. s\<lparr>panel := updatePanel2 distanceText (Number price) (Number seconds) (panel s)\<rparr>),
                  try_catch (call e (SetBounds (getPaths r))),
                  upd (resolve d),
                  chained_autoPan e]
               s)"

definition route_found :: "env \<Rightarrow> copy \<Rightarrow> nat \<times> string \<times> string \<Rightarrow> router \<Rightarrow> handler" where
  "route_found e v captured r =
     (case v of Class_js \<Rightarrow> route_found_class e captured r
              | Part_000 \<Rightarrow> route_found_part e captured r)"

text \<open>The failure callback, the same in both copies.\<close>

definition cant_build :: string where
  "cant_build = ''Can't build route''"

definition route_failed :: "env \<Rightarrow> handler" where
  "route_failed e =
     try_catch (seq [call e (SetBalloonBody Finish cant_build),
                     call e (OpenBalloon Finish),
                     call e (AutoPan Finish)])"

subsection \<open>Points and clicks\<close>

text \<open>
  \<^verbatim>\<open>setPoint(which, coords, balloonContent)\<close>. Only \<^verbatim>\<open>DeliveryCalculatorClass.js\<close> ends it
  with a route request once both points are there; in the documented copy the callers
  \<^verbatim>\<open>setRoute\<close> and \<^verbatim>\<open>_onClick\<close> ask for the route themselves.
\<close>

definition set_balloon_content :: "role \<Rightarrow> string option \<Rightarrow> calculator \<Rightarrow> calculator" where
  "set_balloon_content which balloonContent s =
     (case balloonContent of
        None \<Rightarrow> s
      | Some t \<Rightarrow>
          (case which of Start \<Rightarrow> s\<lparr>startPointBalloonContent := t\<rparr>
                       | Finish \<Rightarrow> s\<lparr>finishPointBalloonContent := t\<rparr>))"

definition setPoint :: "env \<Rightarrow> copy \<Rightarrow> role \<Rightarrow> coords \<Rightarrow> string option \<Rightarrow> handler" where
  "setPoint e v which pos balloonContent =
     seq [(\<lambda>s. case placemark which s of
                 None \<Rightarrow>
                   seq [call e (NewPlacemark which pos),
                        call e (AddPlacemark which),
                        call e (ListenDragend which),
                        upd (set_placemark which pos)] s
               | Some _ \<Rightarrow>
                   seq [call e (SetCoordinates which pos), upd (set_placemark which pos)] s),
          upd (set_balloon_content which balloonContent),
          (\<lambda>s. if v = Class_js \<and> startPoint s \<noteq> None \<and> finishPoint s \<noteq> None
                then setupRoute e s else Done s)]"

definition setRoute :: "env \<Rightarrow> copy \<Rightarrow> coords \<Rightarrow> coords \<Rightarrow> handler" where
  "setRoute e v start finish =
     seq [setPoint e v Start start None,
          setPoint e v Finish finish None,
          (\<lambda>s. if v = Part_000 then setupRoute e s else Done s)]"

definition onClick :: "env \<Rightarrow> copy \<Rightarrow> coords \<Rightarrow> handler" where
  "onClick e v pos =
     seq [(\<lambda>s. if startPoint s = None then setPoint e v Start pos None s
                else if finishPoint s = None then setPoint e v Finish pos None s
                else setPoint e v Finish pos None s),
          (\<lambda>s. if v = Part_000 then setupRoute e s else Done s)]"

subsection \<open>Events\<close>

text \<open>
  What can happen to a calculator: a click on the map, the end of a drag of a placemark
  (the SDK has moved it), a call of the public methods, and the answer of the provider to
  the request with a given number: a router, or a failure. The provider answers a request
  once. An exception inside a callback of the promise stays inside the promise.
\<close>

datatype event =
    Click coords
  | DragEnd role coords
  | SetPoint role coords "string option"
  | SetRoute coords coords
  | RouteOk nat router
  | RouteFail nat

definition captured_by :: "nat \<Rightarrow> calculator \<Rightarrow> (nat \<times> string \<times> string) option" where
  "captured_by n s = find (\<lambda>c. fst c = n) (requests s)"

definition answered :: "nat \<Rightarrow> calculator \<Rightarrow> calculator" where
  "answered n s = s\<lparr>requests := filter (\<lambda>c. fst c \<noteq> n) (requests s)\<rparr>"

fun handle :: "env \<Rightarrow> copy \<Rightarrow> event \<Rightarrow> handler" where
  "handle e v (Click pos) s = onClick e v pos s"
| "handle e v (DragEnd which pos) s =
     (case placemark which s of
        None \<Rightarrow> Done s
      | Some _ \<Rightarrow> seq [upd (set_placemark which pos), setupRoute e] s)"
| "handle e v (SetPoint which pos balloonContent) s = setPoint e v which pos balloonContent s"
| "handle e v (SetRoute start finish) s = setRoute e v start finish s"
| "handle e v (RouteOk n r) s =
     (case captured_by n s of
        None \<Rightarrow> Done s
      | Some captured \<Rightarrow> try_catch (seq [upd (answered n), route_found e v captured r]) s)"
| "handle e v (RouteFail n) s =
     (case captured_by n s of
        None \<Rightarrow> Done s
      | Some captured \<Rightarrow> try_catch (seq [upd (answered n), route_failed e]) s)"

definition step :: "env \<Rightarrow> copy \<Rightarrow> calculator \<Rightarrow> event \<Rightarrow> calculator" where
  "step e v s ev = state_of (handle e v ev s)"

definition run :: "env \<Rightarrow> copy \<Rightarrow> event list \<Rightarrow> calculator \<Rightarrow> calculator" where
  "run e v evs s = foldl (step e v) s evs"

text \<open>The requests to the provider among the calls of a log.\<close>

fun is_request :: "sdk_call \<Rightarrow> bool" where
  "is_request (RouteRequest _ _ _) = True"
| "is_request _ = False"

text \<open>An SDK that carries out every call.\<close>

definition working_sdk :: "env \<Rightarrow> bool" where
  "working_sdk e = (\<forall>c. sdk e c)"

section \<open>Vocabulary of the properties\<close>

text \<open>
  The duration text in the words of the specification: the input clamped at zero and
  floored to whole seconds, then hours and minutes, the hours left out when there are none.
\<close>

definition whole_seconds :: "rat \<Rightarrow> nat" where
  "whole_seconds q = nat \<lfloor>max 0 q\<rfloor>"

definition hm_text :: "nat \<Rightarrow> nat \<Rightarrow> string" where
  "hm_text H M =
     (if 1 \<le> H then nat_to_string H @ '' h '' @ nat_to_string M @ '' min''
      else nat_to_string M @ '' min'')"

text \<open>A text of the shape \<^verbatim>\<open><digits> min\<close> or \<^verbatim>\<open><digits> h <digits> min\<close>.\<close>

definition is_duration_text :: "string \<Rightarrow> bool" where
  "is_duration_text s =
     (let a = takeWhile is_digit s; r = dropWhile is_digit s
      in a \<noteq> [] \<and>
         (r = '' min'' \<or>
          (take 3 r = '' h '' \<and> takeWhile is_digit (drop 3 r) \<noteq> [] \<and>
           dropWhile is_digit (drop 3 r) = '' min'')))"

text \<open>
  An amount of \<open>k\<close> hundredths, written with exactly two decimal digits, and the texts of
  that shape: an optional minus sign, digits, a point, two digits.
\<close>

definition money_text :: "int \<Rightarrow> string" where
  "money_text k =
     (if k < 0 then ''-'' else []) @ nat_to_string (nat \<bar>k\<bar> div 100) @ ''.'' @
     [digit_char (nat \<bar>k\<bar> div 10 mod 10), digit_char (nat \<bar>k\<bar> mod 10)]"

definition is_money_text :: "string \<Rightarrow> bool" where
  "is_money_text s =
     (let t = (if s \<noteq> [] \<and> hd s = CHR ''-'' then tl s else s);
          a = takeWhile is_digit t; r = dropWhile is_digit t
      in a \<noteq> [] \<and> length r = 3 \<and> r ! 0 = CHR ''.'' \<and> is_digit (r ! 1) \<and> is_digit (r ! 2))"

text \<open>
  The value of \<open>v\<close> in hundredths, rounded to the nearest one, a tie upwards, in exact
  arithmetic.
\<close>

definition hundredths :: "rat \<Rightarrow> int" where
  "hundredths v = \<lfloor>v * 100 + 1 / 2\<rfloor>"

text \<open>A property of calculators that a handler keeps, whether it ends or throws.\<close>

definition preserves :: "(calculator \<Rightarrow> bool) \<Rightarrow> handler \<Rightarrow> bool" where
  "preserves P f = (\<forall>s. P s \<longrightarrow> P (state_of (f s)))"

text \<open>Requests are only outstanding once both points are on the map.\<close>

definition points_set :: "calculator \<Rightarrow> bool" where
  "points_set s = (startPoint s \<noteq> None \<and> finishPoint s \<noteq> None)"

definition requested_with_points :: "calculator \<Rightarrow> bool" where
  "requested_with_points s = (requests s = [] \<or> points_set s)"

text \<open>
  Every outstanding request has a deferred that was created, and that deferred is either
  rejected, or pending and the current one.
\<close>

definition superseded_rejected :: "calculator \<Rightarrow> bool" where
  "superseded_rejected s =
     ((\<forall>c \<in> set (requests s).
         fst c < issued s \<and>
         (deferreds s (fst c) = Some Rejected \<or>
          (deferreds s (fst c) = Some Pending \<and> deferred s = Some (fst c)))) \<and>
      (\<forall>d. deferred s = Some d \<longrightarrow> d < issued s))"

text \<open>The examples used below: a page with all three slots, an SDK that carries out every
  call, and routers of a route of 12345 and of 40000 metres.\<close>

definition full_page :: panel where
  "full_page = \<lparr>distanceVal = Some [], timeVal = Some [], costVal = Some []\<rparr>"

definition good_env :: env where
  "good_env = \<lparr>sdk = (\<lambda>c. True), formatter_distance = (\<lambda>n. ''12 km'')\<rparr>"

definition plain_router :: router where
  "plain_router =
     \<lparr>getLength = Fin 12345, getJamsTime = None, getTime = None, properties_get = None,
      getPaths = 7\<rparr>"

definition throwing_router :: router where
  "throwing_router =
     \<lparr>getLength = Fin 40000, getJamsTime = Some Throws,
      getTime = Some (Returns (Plain (Number (Fin 100)))), properties_get = None,
      getPaths = 7\<rparr>"

definition negative_blob_router :: router where
  "negative_blob_router =
     \<lparr>getLength = Fin 1000, getJamsTime = None, getTime = None,
      properties_get = Some (Returns (Object [(''value'', Plain (Number (Fin (- 5))))])),
      getPaths = 7\<rparr>"

text \<open>
  An update of the calculator that touches neither the points nor the requests nor the
  deferreds, and a property that such updates and the placing of a point keep.
\<close>

definition quiet :: "(calculator \<Rightarrow> calculator) \<Rightarrow> bool" where
  "quiet g =
     (\<forall>s. startPoint (g s) = startPoint s \<and> finishPoint (g s) = finishPoint s \<and>
          requests (g s) = requests s \<and> deferred (g s) = deferred s \<and>
          deferreds (g s) = deferreds s \<and> issued (g s) = issued s)"

definition steady :: "(calculator \<Rightarrow> bool) \<Rightarrow> bool" where
  "steady P =
     ((\<forall>g s. quiet g \<longrightarrow> P s \<longrightarrow> P (g s)) \<and> (\<forall>w p s. P s \<longrightarrow> P (set_placemark w p s)))"

text \<open>All requests have another deferred than \<open>d\<close>.\<close>

definition other_requests :: "nat \<Rightarrow> calculator \<Rightarrow> bool" where
  "other_requests d s = (superseded_rejected s \<and> d \<notin> fst ` set (requests s))"

text \<open>
  The calls expected of the clicks \<open>ps\<close>. The first click creates the start placemark. The
  click after it, number 0 of the later ones, creates the finish placemark; every further
  one moves that placemark to the clicked position. Each of the later clicks then sends a
  route request from the start point to the clicked position.
\<close>

definition later_click :: "coords \<Rightarrow> nat \<Rightarrow> coords \<Rightarrow> sdk_call list" where
  "later_click a i p =
     (if i = 0 then [NewPlacemark Finish p, AddPlacemark Finish, ListenDragend Finish]
      else [SetCoordinates Finish p]) @
     [RouteRequest i a p]"

definition click_log :: "coords list \<Rightarrow> sdk_call list" where
  "click_log ps =
     (if ps = [] then []
      else [NewPlacemark Start (hd ps), AddPlacemark Start, ListenDragend Start] @
           concat (map (\<lambda>i. later_click (hd ps) i (ps ! Suc i)) [0..<length ps - 1]))"

text \<open>
  The state after the clicks \<open>ps\<close>: the first one placed the start point, the last one
  of two or more placed or moved the finish point, every click from the second on
  sent a route request from the start point to the clicked position, and the calls made
  are the expected ones.
\<close>

definition after_clicks :: "coords list \<Rightarrow> calculator \<Rightarrow> bool" where
  "after_clicks ps s =
     (startPoint s = (if ps = [] then None else Some (hd ps)) \<and>
      finishPoint s = (if length ps < 2 then None else Some (last ps)) \<and>
      issued s = length ps - 1 \<and>
      filter is_request (calls s) =
        map (\<lambda>i. RouteRequest i (hd ps) (ps ! Suc i)) [0..<length ps - 1] \<and>
      calls s = click_log ps)"

text \<open>The calls of the failure callback that the SDK carries out.\<close>

definition failure_calls :: "env \<Rightarrow> sdk_call list" where
  "failure_calls e =
     takeWhile (sdk e) [SetBalloonBody Finish cant_build, OpenBalloon Finish, AutoPan Finish]"

text \<open>
  Three clicks: the third one supersedes the request of the second. Then the provider
  finds the route of the later request.
\<close>

definition three_clicks :: "event list" where
  "three_clicks = [Click (1, 1), Click (2, 2), Click (3, 3)]"

definition superseded_run :: "copy \<Rightarrow> calculator" where
  "superseded_run v = run good_env v (three_clicks @ [RouteOk 1 plain_router]) (init full_page)"

definition blob_router :: router where
  "blob_router =
     \<lparr>getLength = Fin 1000, getJamsTime = None, getTime = None,
      properties_get = Some (Returns (Object [(''value'', Plain (Number (Fin 600)))])),
      getPaths = 7\<rparr>"

section \<open>Rounding to binary64\<close>

text \<open>
  What the theorems below need of the rounding: its error is at most half a unit of the
  last place, that is at most \<open>\<bar>x\<bar> / 2 ^ 53\<close> for a normal number; it keeps the sign; it
  returns an integer below \<open>2 ^ 53\<close> in magnitude as it is; and a value that is at least such
  an integer rounds to no less.
\<close>

lemma bit_length_bounds:
  "0 < n \<Longrightarrow> 1 \<le> bit_length n \<and> 2 ^ nat (bit_length n - 1) \<le> n \<and> n < 2 ^ nat (bit_length n)"
proof (induction n rule: bit_length.induct)
  case (1 n)
  show ?case
  proof (cases "n div 2 = 0")
    case True
    with 1 have n: "n = 1" by linarith
    have "bit_length 1 = 1" by (simp add: bit_length.simps[of 1] bit_length.simps[of 0])
    with n show ?thesis by simp
  next
    case False
    with 1 have k: "0 < n div 2" by linarith
    let ?b = "bit_length (n div 2)"
    from 1 k have ih: "1 \<le> ?b" "2 ^ nat (?b - 1) \<le> n div 2" "n div 2 < 2 ^ nat ?b"
      by simp_all
    have bl: "bit_length n = 1 + ?b" using 1(2) by (simp add: bit_length.simps[of n])
    have p: "(2::int) ^ nat ?b = 2 * 2 ^ nat (?b - 1)"
      using ih(1) by (metis Suc_nat_eq_nat_zadd1 diff_add_cancel diff_ge_0_iff_ge power_Suc add.commute)
    have "2 * (n div 2) \<le> n" "n \<le> 2 * (n div 2) + 1" by linarith+
    then have "2 ^ nat ?b \<le> n" "n < 2 * 2 ^ nat ?b"
      using ih p by linarith+
    moreover have "nat (1 + ?b) = Suc (nat ?b)" using ih(1) by linarith
    ultimately show ?thesis using ih(1) bl by simp
  qed
qed

lemma bit_length_powi:
  assumes "0 < n"
  shows "2 powi (bit_length n - 1) \<le> rat_of_int n" "rat_of_int n + 1 \<le> 2 powi (bit_length n)"
proof -
  note b = bit_length_bounds [OF assms]
  have "rat_of_int (2 ^ nat (bit_length n - 1)) \<le> of_int n"
    using b by (simp only: of_int_le_iff)
  then show "2 powi (bit_length n - 1) \<le> rat_of_int n"
    using b by (simp add: power_int_def)
  have "n + 1 \<le> 2 ^ nat (bit_length n)" using b by linarith
  then have "rat_of_int (n + 1) \<le> of_int (2 ^ nat (bit_length n))"
    by (simp only: of_int_le_iff)
  then show "rat_of_int n + 1 \<le> 2 powi (bit_length n)"
    using b by (simp add: power_int_def)
qed

lemma ilog2_bounds:
  assumes "0 < x"
  shows "2 powi (ilog2 x) \<le> x" "x < 2 powi (ilog2 x + 1)"
proof -
  have "2 powi (ilog2 x) \<le> x \<and> x < 2 powi (ilog2 x + 1)"
  proof (cases "1 \<le> x")
    case True
    then have n: "0 < \<lfloor>x\<rfloor>" by linarith
    have "of_int \<lfloor>x\<rfloor> \<le> x" "x < of_int \<lfloor>x\<rfloor> + 1" by linarith+
    with bit_length_powi [OF n] True show ?thesis
      by (simp add: ilog2_def) linarith
  next
    case False
    let ?y = "1 / x"
    let ?n = "\<lceil>?y\<rceil> - 1"
    have y: "1 < ?y" using assms False by simp
    then have n: "0 < ?n" by linarith
    have ny: "of_int ?n < ?y" "?y \<le> of_int ?n + 1" by linarith+
    note b = bit_length_powi [OF n]
    let ?j = "bit_length ?n"
    have il: "ilog2 x = - ?j" using False by (simp add: ilog2_def)
    have up: "?y \<le> 2 powi ?j" using ny(2) b(2) by linarith
    have lo: "2 powi (?j - 1) < ?y" using ny(1) b(1) by linarith
    have p0: "(0::rat) < 2 powi ?j" "(0::rat) < 2 powi (?j - 1)" by simp_all
    have "(2::rat) powi (- ?j) = 1 / 2 powi ?j" by (rule power_int_minus_divide)
    also have "\<dots> \<le> x"
      using up assms p0(1) by (simp add: field_simps)
    finally have a: "2 powi (- ?j) \<le> x" .
    have "x < 1 / 2 powi (?j - 1)"
      using lo assms p0(2) by (simp add: field_simps)
    also have "1 / (2::rat) powi (?j - 1) = 2 powi (- (?j - 1))"
      by (rule power_int_minus_divide[symmetric])
    also have "- (?j - 1) = - ?j + 1" by simp
    finally have "x < 2 powi (- ?j + 1)" .
    with a il show ?thesis by simp
  qed
  then show "2 powi (ilog2 x) \<le> x" "x < 2 powi (ilog2 x + 1)" by simp_all
qed

lemma rhe_floor: "\<lfloor>q\<rfloor> \<le> round_half_even q" "round_half_even q \<le> \<lfloor>q\<rfloor> + 1"
  by (simp_all add: round_half_even_def Let_def)

lemma rhe_error: "\<bar>of_int (round_half_even q) - q\<bar> \<le> 1 / 2"
proof -
  have "of_int \<lfloor>q\<rfloor> \<le> q" "q < of_int \<lfloor>q\<rfloor> + 1" by linarith+
  then show ?thesis
    by (auto simp: round_half_even_def Let_def abs_le_iff)
qed

lemma rhe_int: "round_half_even (of_int j) = j"
  by (simp add: round_half_even_def)

lemma rhe_ge: "of_int j \<le> q \<Longrightarrow> j \<le> round_half_even q"
  using rhe_floor(1)[of q] by (meson le_floor_iff order_trans)

lemma exp_le:
  assumes "(2::rat) powi a \<le> x" "x \<le> 2 powi b"
  shows "a \<le> b"
proof (rule ccontr)
  assume "\<not> a \<le> b"
  then have "(2::rat) powi b < 2 powi a" by (intro power_int_strict_increasing) auto
  with assms show False by linarith
qed


lemma exp_less:
  assumes "(2::rat) powi a < 2 powi b"
  shows "a < b"
proof (rule ccontr)
  assume "\<not> a < b"
  then have "(2::rat) powi b \<le> 2 powi a" by (intro power_int_increasing) auto
  with assms show False by linarith
qed

lemma powi_scale: "x * (2::rat) powi (- e) * 2 powi e = x"
proof -
  have "(2::rat) powi (- e) * 2 powi e = 2 powi (- e + e)"
    by (rule power_int_add[symmetric]) simp
  then show ?thesis by (simp add: mult.assoc)
qed

text \<open>The parts of a rounding: the mantissa is not negative and the error is at most half a unit.\<close>

lemma round64_parts:
  assumes "x \<noteq> 0"
  defines "e \<equiv> max (ilog2 \<bar>x\<bar> - 52) (- 1074)"
  defines "m \<equiv> round_half_even (\<bar>x\<bar> * 2 powi (- e))"
  shows "round64 x =
           (if 971 < e \<or> (e = 971 \<and> m = 2 ^ 53) then (if 0 < x then PosInf else NegInf)
            else Fin ((if x < 0 then - 1 else 1) * of_int m * 2 powi e))"
    and "0 \<le> m"
    and "\<bar>of_int m * 2 powi e - \<bar>x\<bar>\<bar> \<le> 2 powi e / 2"
proof -
  show "round64 x =
           (if 971 < e \<or> (e = 971 \<and> m = 2 ^ 53) then (if 0 < x then PosInf else NegInf)
            else Fin ((if x < 0 then - 1 else 1) * of_int m * 2 powi e))"
    using assms(1) unfolding round64_def e_def m_def Let_def by simp
  let ?t = "\<bar>x\<bar> * 2 powi (- e)"
  have "0 \<le> ?t" by simp
  then have "rat_of_int 0 \<le> ?t" by simp
  then show "0 \<le> m" unfolding m_def by (rule rhe_ge)
  have p: "(0::rat) < 2 powi e" by simp
  have "of_int m * 2 powi e - \<bar>x\<bar> = (of_int m - ?t) * 2 powi e"
    using powi_scale[of "\<bar>x\<bar>" e] by (simp add: algebra_simps)
  then have "\<bar>of_int m * 2 powi e - \<bar>x\<bar>\<bar> = \<bar>of_int m - ?t\<bar> * 2 powi e"
    using p by (simp add: abs_mult)
  also have "\<dots> \<le> (1 / 2) * 2 powi e"
    using rhe_error[of ?t] p unfolding m_def by (intro mult_right_mono) simp_all
  finally show "\<bar>of_int m * 2 powi e - \<bar>x\<bar>\<bar> \<le> 2 powi e / 2" by simp
qed

lemma round64_near:
  assumes "\<bar>x\<bar> \<le> 2 ^ K" "K \<le> 1000"
  shows "\<exists>r. round64 x = Fin r \<and> \<bar>r - x\<bar> \<le> 2 ^ K / 2 ^ 53 \<and>
             (2 powi (- 1022) \<le> \<bar>x\<bar> \<longrightarrow> \<bar>r - x\<bar> \<le> \<bar>x\<bar> / 2 ^ 53) \<and>
             (0 \<le> x \<longrightarrow> 0 \<le> r) \<and> (x \<le> 0 \<longrightarrow> r \<le> 0)"
proof (cases "x = 0")
  case True
  then show ?thesis by (simp add: round64_def)
next
  case False
  define E where "E = ilog2 \<bar>x\<bar>"
  define e where "e = max (E - 52) (- 1074)"
  define m where "m = round_half_even (\<bar>x\<bar> * 2 powi (- e))"
  note parts = round64_parts [OF False, folded E_def, folded e_def, folded m_def]
  have ax: "0 < \<bar>x\<bar>" using False by simp
  note il = ilog2_bounds [OF ax, folded E_def]
  have "\<bar>x\<bar> \<le> 2 powi (int K)" using assms(1) by simp
  with il(1) have EK: "E \<le> int K" by (rule exp_le)
  then have e_le: "e \<le> int K - 52" unfolding e_def by simp
  with assms(2) have "e < 971" by simp
  then have fin: "round64 x = Fin ((if x < 0 then - 1 else 1) * of_int m * 2 powi e)"
    using parts(1) by simp
  let ?r = "(if x < 0 then - 1 else 1) * rat_of_int m * 2 powi e"
  have diff: "\<bar>?r - x\<bar> = \<bar>of_int m * 2 powi e - \<bar>x\<bar>\<bar>"
    by (cases "x < 0") (simp_all add: abs_if)
  have p: "(0::rat) < 2 powi e" by simp
  have b1: "\<bar>?r - x\<bar> \<le> 2 ^ K / 2 ^ 53"
  proof -
    have "(2::rat) powi e \<le> 2 powi (int K - 52)"
      using e_le by (intro power_int_increasing) simp_all
    also have "(2::rat) powi (int K - 52) = 2 ^ K / 2 ^ 52"
      by (simp add: power_int_diff)
    finally have "(2::rat) powi e / 2 \<le> 2 ^ K / 2 ^ 53" by simp
    with parts(3) diff show ?thesis by linarith
  qed
  have b2: "\<bar>?r - x\<bar> \<le> \<bar>x\<bar> / 2 ^ 53" if n: "2 powi (- 1022) \<le> \<bar>x\<bar>"
  proof -
    have "(2::rat) powi (- 1022) < 2 powi (E + 1)" using n il(2) by linarith
    then have "- 1022 < E + 1" by (rule exp_less)
    then have "e = E - 52" unfolding e_def by simp
    then have "(2::rat) powi e = 2 powi E / 2 ^ 52" by (simp add: power_int_diff)
    also have "\<dots> \<le> \<bar>x\<bar> / 2 ^ 52" using il(1) by (simp add: divide_right_mono)
    finally have "(2::rat) powi e / 2 \<le> \<bar>x\<bar> / 2 ^ 53" by simp
    with parts(3) diff show ?thesis by linarith
  qed
  have s1: "0 \<le> ?r" if "0 \<le> x" using that parts(2) by simp
  have s2: "?r \<le> 0" if "x \<le> 0"
    using that parts(2) False by (simp add: mult_nonneg_nonneg)
  show ?thesis using fin b1 b2 s1 s2 by blast
qed

lemma round64_not_nan: "round64 x \<noteq> NaN"
  by (simp add: round64_def Let_def)

lemma round64_fin:
  assumes "x \<noteq> 0" "round64 x = Fin r"
  shows "\<bar>r - x\<bar> \<le> 2 powi (max (ilog2 \<bar>x\<bar> - 52) (- 1074)) / 2"
    and "0 < x \<Longrightarrow> 0 \<le> r"
proof -
  define e where "e = max (ilog2 \<bar>x\<bar> - 52) (- 1074)"
  define m where "m = round_half_even (\<bar>x\<bar> * 2 powi (- e))"
  note parts = round64_parts [OF assms(1), folded e_def, folded m_def]
  have r: "r = (if x < 0 then - 1 else 1) * rat_of_int m * 2 powi e"
    using parts(1) assms(2) by (simp split: if_splits)
  have "\<bar>r - x\<bar> = \<bar>of_int m * 2 powi e - \<bar>x\<bar>\<bar>"
    unfolding r by (cases "x < 0") (simp_all add: abs_if)
  with parts(3) show "\<bar>r - x\<bar> \<le> 2 powi e / 2" by simp
  show "0 \<le> r" if "0 < x" using that parts(2) unfolding r by simp
qed

lemma round64_rel:
  assumes "round64 x = Fin r" "2 powi (- 1022) \<le> \<bar>x\<bar>"
  shows "\<bar>r - x\<bar> \<le> \<bar>x\<bar> / 2 ^ 53"
proof -
  have p: "(0::rat) < 2 powi (- 1022)" by simp
  with assms(2) have ax: "0 < \<bar>x\<bar>" by linarith
  then have nz: "x \<noteq> 0" by simp
  define E where "E = ilog2 \<bar>x\<bar>"
  note il = ilog2_bounds [OF ax, folded E_def]
  have "(2::rat) powi (- 1022) < 2 powi (E + 1)" using assms(2) il(2) by linarith
  then have "- 1022 < E + 1" by (rule exp_less)
  then have e: "max (E - 52) (- 1074) = E - 52" by simp
  have "(2::rat) powi (E - 52) = 2 powi E / 2 ^ 52" by (simp add: power_int_diff)
  also have "\<dots> \<le> \<bar>x\<bar> / 2 ^ 52" using il(1) by (simp add: divide_right_mono)
  finally have "(2::rat) powi (E - 52) / 2 \<le> \<bar>x\<bar> / 2 ^ 53" by simp
  with round64_fin(1) [OF nz assms(1), folded E_def, unfolded e] show ?thesis by linarith
qed

lemma round64_pos:
  assumes "0 \<le> x"
  shows "round64 x = PosInf \<or> (\<exists>r. round64 x = Fin r \<and> 0 \<le> r)"
proof (cases "x = 0")
  case True
  then show ?thesis by (simp add: round64_def)
next
  case False
  with assms have "0 < x" by simp
  then show ?thesis
    using round64_parts(1,2) [OF False] by (simp add: Let_def)
qed

text \<open>The maximum with a floor of at least one keeps the accuracy of a rounded value.\<close>

lemma max_round64_near:
  assumes "0 \<le> x" "1 \<le> M" "round64 x = Fin r"
  shows "\<bar>max r M - max x M\<bar> \<le> x / 2 ^ 53"
proof (cases "2 powi (- 1022) \<le> \<bar>x\<bar>")
  case True
  from round64_rel [OF assms(3) True] have "\<bar>r - x\<bar> \<le> x / 2 ^ 53" using assms(1) by simp
  then show ?thesis by (simp add: max_def abs_if split: if_splits)
next
  case False
  have "(2::rat) powi (- 1022) \<le> 2 powi 0" by (intro power_int_increasing) simp_all
  then have "\<bar>x\<bar> \<le> 2 ^ 0" using False by simp
  from round64_near [OF this] assms(3) have "\<bar>r - x\<bar> \<le> 1 / 2 ^ 53" by simp
  moreover have "x < 1 / 2"
  proof -
    have "(2::rat) powi (- 1022) \<le> 2 powi (- 1)" by (intro power_int_increasing) simp_all
    also have "(2::rat) powi (- 1) = 1 / 2" by (simp add: power_int_minus_divide)
    finally show ?thesis using False assms(1) by simp
  qed
  ultimately have "r < 1" by (simp add: abs_if split: if_splits)
  then have "max r M = M" "max x M = M" using assms(2) \<open>x < 1 / 2\<close> by simp_all
  then show ?thesis using assms(1) by simp
qed

lemma round64_nonneg:
  assumes "0 \<le> x"
  shows "js_ge (round64 x) (Fin 0)"
proof (cases "x = 0")
  case True
  then show ?thesis by (simp add: round64_def)
next
  case False
  with assms have "0 < x" by simp
  then show ?thesis
    using round64_parts(1,2) [OF False] by (simp add: Let_def)
qed

lemma round64_int:
  assumes "\<bar>n\<bar> < 2 ^ 53"
  shows "round64 (of_int n) = Fin (of_int n)"
proof (cases "n = 0")
  case True
  then show ?thesis by (simp add: round64_def)
next
  case False
  let ?x = "rat_of_int n"
  have nz: "?x \<noteq> 0" using False by simp
  define E where "E = ilog2 \<bar>?x\<bar>"
  define e where "e = max (E - 52) (- 1074)"
  define m where "m = round_half_even (\<bar>?x\<bar> * 2 powi (- e))"
  note parts = round64_parts [OF nz, folded E_def, folded e_def, folded m_def]
  have ax: "0 < \<bar>?x\<bar>" using False by simp
  note il = ilog2_bounds [OF ax, folded E_def]
  have "\<bar>?x\<bar> \<le> 2 powi 52 * 2 - 1"
  proof -
    have "\<bar>n\<bar> \<le> 2 ^ 53 - 1" using assms by simp
    then have "rat_of_int \<bar>n\<bar> \<le> of_int (2 ^ 53 - 1)" by (simp only: of_int_le_iff)
    then show ?thesis by simp
  qed
  then have "\<bar>?x\<bar> < 2 powi 53" by simp
  with il(1) have "(2::rat) powi E < 2 powi 53" by linarith
  then have E53: "E < 53" by (rule exp_less)
  have "1 \<le> \<bar>?x\<bar>"
  proof -
    have "1 \<le> \<bar>n\<bar>" using False by simp
    then have "rat_of_int 1 \<le> of_int \<bar>n\<bar>" by (simp only: of_int_le_iff)
    then show ?thesis by simp
  qed
  with il(2) have "(2::rat) powi 0 < 2 powi (E + 1)" by simp
  then have E0: "0 < E + 1" by (rule exp_less)
  have e: "e = E - 52" "e \<le> 0" unfolding e_def using E0 E53 by simp_all
  have t: "\<bar>?x\<bar> * 2 powi (- e) = of_int (\<bar>n\<bar> * 2 ^ nat (- e))"
    using e(2) by (simp add: power_int_def)
  have m: "m = \<bar>n\<bar> * 2 ^ nat (- e)" unfolding m_def t by (rule rhe_int)
  have "rat_of_int m * 2 powi e = \<bar>?x\<bar>"
    unfolding m using powi_scale[of "\<bar>?x\<bar>" e] e(2) by (simp add: power_int_def)
  then have "(if ?x < 0 then - 1 else 1) * of_int m * 2 powi e = ?x"
    by (simp add: abs_if mult.assoc split: if_splits)
  then show ?thesis using parts(1) e(2) by simp
qed

lemma round64_ge_int:
  assumes "of_int c \<le> x" "0 < c" "c \<le> 2 ^ 53"
  shows "js_ge (round64 x) (Fin (of_int c))"
proof -
  have xp: "0 < x" using assms(1,2) by (smt (verit) of_int_0_less_iff order_less_le_trans)
  then have nz: "x \<noteq> 0" by simp
  define E where "E = ilog2 \<bar>x\<bar>"
  define e where "e = max (E - 52) (- 1074)"
  define m where "m = round_half_even (\<bar>x\<bar> * 2 powi (- e))"
  note parts = round64_parts [OF nz, folded E_def, folded e_def, folded m_def]
  have ax: "0 < \<bar>x\<bar>" using nz by simp
  note il = ilog2_bounds [OF ax, folded E_def]
  have x1: "1 \<le> x"
  proof -
    have "1 \<le> c" using assms(2) by simp
    then have "rat_of_int 1 \<le> of_int c" by (simp only: of_int_le_iff)
    with assms(1) show ?thesis by simp
  qed
  with il(2) xp have "(2::rat) powi 0 < 2 powi (E + 1)" by simp
  then have "0 < E + 1" by (rule exp_less)
  then have E0: "0 \<le> E" by simp
  then have e: "e = E - 52" unfolding e_def by simp
  show ?thesis
  proof (cases "971 < e \<or> (e = 971 \<and> m = 2 ^ 53)")
    case True
    with parts(1) xp show ?thesis by simp
  next
    case False
    then have r: "round64 x = Fin (of_int m * 2 powi e)" using parts(1) xp by simp
    have "rat_of_int c \<le> of_int m * 2 powi e"
    proof (cases "e \<le> 0")
      case True
      have "rat_of_int (c * 2 ^ nat (- e)) \<le> \<bar>x\<bar> * 2 powi (- e)"
        using assms(1) xp True by (simp add: power_int_def mult_right_mono)
      then have "c * 2 ^ nat (- e) \<le> m" unfolding m_def by (rule rhe_ge)
      then have "rat_of_int (c * 2 ^ nat (- e)) \<le> of_int m" by (simp only: of_int_le_iff)
      then have "rat_of_int c * 2 powi (- e) \<le> of_int m"
        using True by (simp add: power_int_def)
      then have "rat_of_int c * 2 powi (- e) * 2 powi e \<le> of_int m * 2 powi e"
        by (intro mult_right_mono) simp_all
      then show ?thesis by (simp only: powi_scale)
    next
      case False
      have "(2::rat) powi 52 = 2 powi E * 2 powi (- e)"
        unfolding e by (subst power_int_add[symmetric]) simp_all
      also have "\<dots> \<le> \<bar>x\<bar> * 2 powi (- e)"
        using il(1) by (intro mult_right_mono) simp_all
      finally have "rat_of_int (2 ^ 52) \<le> \<bar>x\<bar> * 2 powi (- e)" by simp
      then have "2 ^ 52 \<le> m" unfolding m_def by (rule rhe_ge)
      then have "rat_of_int (2 ^ 52) \<le> of_int m" by (simp only: of_int_le_iff)
      then have m52: "(2::rat) ^ 52 \<le> of_int m" by simp
      have "(2::rat) powi 1 \<le> 2 powi e" using False by (intro power_int_increasing) simp_all
      then have e2: "(2::rat) \<le> 2 powi e" by simp
      have "(2::rat) ^ 52 * 2 \<le> of_int m * 2 powi e"
        using m52 e2 by (intro mult_mono) simp_all
      moreover have "rat_of_int c \<le> 2 ^ 52 * 2"
      proof -
        have "rat_of_int c \<le> of_int (2 ^ 53)" using assms(3) by (simp only: of_int_le_iff)
        then show ?thesis by simp
      qed
      ultimately show ?thesis by linarith
    qed
    with r show ?thesis by simp
  qed
qed

text \<open>From \<open>2 ^ 1024\<close> on the rounding gives plus infinity.\<close>

lemma round64_overflow:
  assumes "2 ^ 1024 \<le> x"
  shows "round64 x = PosInf"
proof -
  have p: "(0::rat) < 2 ^ 1024" by simp
  with assms have xp: "0 < x" by linarith
  then have nz: "x \<noteq> 0" and ax: "0 < \<bar>x\<bar>" by simp_all
  define E where "E = ilog2 \<bar>x\<bar>"
  note il = ilog2_bounds [OF ax, folded E_def]
  have "(2::rat) powi 1024 \<le> \<bar>x\<bar>" using assms xp by simp
  with il(2) have "(2::rat) powi 1024 < 2 powi (E + 1)" by linarith
  then have "1024 < E + 1" by (rule exp_less)
  then have e: "max (E - 52) (- 1074) = E - 52" "971 < E - 52" by simp_all
  from round64_parts(1) [OF nz, folded E_def, unfolded e(1)] have
    "round64 x = (if 971 < E - 52 \<or> (E - 52 = 971 \<and>
        round_half_even (\<bar>x\<bar> * 2 powi (- (E - 52))) = 2 ^ 53)
      then (if 0 < x then PosInf else NegInf)
      else Fin ((if x < 0 then - 1 else 1) *
        of_int (round_half_even (\<bar>x\<bar> * 2 powi (- (E - 52)))) * 2 powi (E - 52)))" .
  then show ?thesis using e(2) xp by (simp only: simp_thms if_True)
qed

section \<open>Pricing: the floor and the break-even distance\<close>

lemma js_max_ge: "js_ge a (Fin b) \<Longrightarrow> js_max a (Fin b) = a"
  by (cases a) (simp_all add: max_def)

lemma js_max_floor: "a \<noteq> NaN \<Longrightarrow> js_ge (js_max a (Fin b)) (Fin b)"
  by (cases a) simp_all

text \<open>The price for a finite distance, for any rate and any floor of at least one.\<close>

lemma price_floor:
  "js_ge (js_max (js_mul (Fin q) (Fin T)) (Fin M)) (Fin M)"
  by (rule js_max_floor) (simp add: round64_not_nan)

lemma price_near:
  assumes "0 \<le> q * T" "1 \<le> M" "js_max (js_mul (Fin q) (Fin T)) (Fin M) = Fin p"
  shows "\<bar>p - max (q * T) M\<bar> \<le> q * T / 2 ^ 53"
proof -
  from round64_pos [OF assms(1)] assms(3)
  obtain r where r: "round64 (q * T) = Fin r" by auto
  with assms(3) have "p = max r M" by simp
  with max_round64_near [OF assms(1,2) r] show ?thesis by simp
qed

lemma price_finite:
  assumes "\<bar>q * T\<bar> \<le> 2 ^ 1000"
  shows "\<exists>p. js_max (js_mul (Fin q) (Fin T)) (Fin M) = Fin p"
proof -
  from round64_near [OF assms] obtain r where "round64 (q * T) = Fin r" by auto
  then show ?thesis by simp
qed

lemma price_whole:
  assumes "0 \<le> k" "k < 2 ^ 48"
  shows "buildPrice (Fin (of_int k)) = Fin (max (of_int k * DELIVERY_TARIF2) MINIMUM_COST2)"
proof -
  have "\<bar>k * 20\<bar> < 2 ^ 53" using assms by simp
  from round64_int [OF this] show ?thesis
    by (simp add: buildPrice_def DELIVERY_TARIF2_def MINIMUM_COST2_def)
qed

text \<open>
  C3. For every non-negative distance the price is the maximum of the binary64 product of
  distance and rate and the minimum price, so it never falls below the minimum price. For
  a finite distance the price is within the rounding error of the product, a relative
  error of \<open>1 / 2 ^ 53\<close>, of the exact maximum, and it is finite for a distance up to
  \<open>2 ^ 990\<close>; the copy with the rate 20 computes the exact maximum for whole kilometres
  below \<open>2 ^ 48\<close>. A distance of plus infinity costs plus infinity. Both copies, each with
  its constants.
\<close>

theorem price_is_max_with_floor:
  assumes "js_ge d (Fin 0)"
  shows "priceForKm d = js_max (js_mul d (Fin DELIVERY_TARIF)) (Fin MINIMUM_COST) \<and>
         buildPrice d = js_max (js_mul d (Fin DELIVERY_TARIF2)) (Fin MINIMUM_COST2) \<and>
         js_ge (priceForKm d) (Fin MINIMUM_COST) \<and>
         js_ge (buildPrice d) (Fin MINIMUM_COST2) \<and>
         (\<forall>q p. d = Fin q \<and> priceForKm d = Fin p \<longrightarrow>
            \<bar>p - max (q * DELIVERY_TARIF) MINIMUM_COST\<bar> \<le> q * DELIVERY_TARIF / 2 ^ 53) \<and>
         (\<forall>q p. d = Fin q \<and> buildPrice d = Fin p \<longrightarrow>
            \<bar>p - max (q * DELIVERY_TARIF2) MINIMUM_COST2\<bar> \<le> q * DELIVERY_TARIF2 / 2 ^ 53) \<and>
         (\<forall>q. d = Fin q \<and> q \<le> 2 ^ 990 \<longrightarrow>
            (\<exists>p. priceForKm d = Fin p) \<and> (\<exists>p. buildPrice d = Fin p)) \<and>
         (\<forall>k. d = Fin (of_int k) \<and> k < 2 ^ 48 \<longrightarrow>
            buildPrice d = Fin (max (of_int k * DELIVERY_TARIF2) MINIMUM_COST2)) \<and>
         (d = PosInf \<longrightarrow> priceForKm d = PosInf \<and> buildPrice d = PosInf)"
proof (cases d)
  case NaN
  with assms show ?thesis by simp
next
  case PosInf
  then show ?thesis
    by (simp add: priceForKm_def buildPrice_def DELIVERY_TARIF_def DELIVERY_TARIF2_def
        inf_of_sign_def)
next
  case NegInf
  with assms show ?thesis by simp
next
  case (Fin q)
  with assms have q: "0 \<le> q" by simp
  have t: "0 \<le> q * DELIVERY_TARIF" "0 \<le> q * DELIVERY_TARIF2"
    using q by (simp_all add: DELIVERY_TARIF_def DELIVERY_TARIF2_def)
  have m: "1 \<le> MINIMUM_COST" "1 \<le> MINIMUM_COST2"
    by (simp_all add: MINIMUM_COST_def MINIMUM_COST2_def)
  have a1: "\<bar>p - max (q * DELIVERY_TARIF) MINIMUM_COST\<bar> \<le> q * DELIVERY_TARIF / 2 ^ 53"
    if "priceForKm (Fin q) = Fin p" for p
    using that by (intro price_near [OF t(1) m(1)]) (simp add: priceForKm_def)
  have a2: "\<bar>p - max (q * DELIVERY_TARIF2) MINIMUM_COST2\<bar> \<le> q * DELIVERY_TARIF2 / 2 ^ 53"
    if "buildPrice (Fin q) = Fin p" for p
    using that by (intro price_near [OF t(2) m(2)]) (simp add: buildPrice_def)
  have f: "(\<exists>p. priceForKm (Fin q) = Fin p) \<and> (\<exists>p. buildPrice (Fin q) = Fin p)"
    if b: "q \<le> 2 ^ 990"
  proof -
    have "q * DELIVERY_TARIF \<le> q * 1"
      using q by (intro mult_left_mono) (simp_all add: DELIVERY_TARIF_def)
    also have "q * 1 \<le> 2 ^ 1000"
    proof -
      have "(2::rat) ^ 990 \<le> 2 ^ 1000" by (intro power_increasing) simp_all
      with b show ?thesis by simp
    qed
    finally have b1: "\<bar>q * DELIVERY_TARIF\<bar> \<le> 2 ^ 1000" using t(1) by simp
    have "q * DELIVERY_TARIF2 \<le> 2 ^ 990 * 2 ^ 10"
      unfolding DELIVERY_TARIF2_def using b by (intro mult_mono) simp_all
    also have "(2::rat) ^ 990 * 2 ^ 10 = 2 ^ 1000" by (simp flip: power_add)
    finally have b2: "\<bar>q * DELIVERY_TARIF2\<bar> \<le> 2 ^ 1000" using t(2) by simp
    show ?thesis
      unfolding priceForKm_def buildPrice_def
      using price_finite [OF b1] price_finite [OF b2] by blast
  qed
  have w: "buildPrice (Fin q) = Fin (max (of_int k * DELIVERY_TARIF2) MINIMUM_COST2)"
    if "q = of_int k" "k < 2 ^ 48" for k
  proof -
    have "0 \<le> k" using q that(1) by simp
    from price_whole [OF this that(2)] that(1) show ?thesis by simp
  qed
  have d: "priceForKm (Fin q) = js_max (js_mul (Fin q) (Fin DELIVERY_TARIF)) (Fin MINIMUM_COST)"
    "buildPrice (Fin q) = js_max (js_mul (Fin q) (Fin DELIVERY_TARIF2)) (Fin MINIMUM_COST2)"
    by (simp_all only: priceForKm_def buildPrice_def)
  have g: "js_ge (priceForKm (Fin q)) (Fin MINIMUM_COST)"
    "js_ge (buildPrice (Fin q)) (Fin MINIMUM_COST2)"
    unfolding d by (rule price_floor)+
  have a: "\<forall>q' p. Fin q = Fin q' \<and> priceForKm (Fin q) = Fin p \<longrightarrow>
            \<bar>p - max (q' * DELIVERY_TARIF) MINIMUM_COST\<bar> \<le> q' * DELIVERY_TARIF / 2 ^ 53"
    "\<forall>q' p. Fin q = Fin q' \<and> buildPrice (Fin q) = Fin p \<longrightarrow>
            \<bar>p - max (q' * DELIVERY_TARIF2) MINIMUM_COST2\<bar> \<le> q' * DELIVERY_TARIF2 / 2 ^ 53"
    using a1 a2 by blast+
  have f': "\<forall>q'. Fin q = Fin q' \<and> q' \<le> 2 ^ 990 \<longrightarrow>
            (\<exists>p. priceForKm (Fin q) = Fin p) \<and> (\<exists>p. buildPrice (Fin q) = Fin p)"
    using f by blast
  have w': "\<forall>k. Fin q = Fin (of_int k) \<and> k < 2 ^ 48 \<longrightarrow>
            buildPrice (Fin q) = Fin (max (of_int k * DELIVERY_TARIF2) MINIMUM_COST2)"
    using w by blast
  have i: "Fin q = PosInf \<longrightarrow> priceForKm (Fin q) = PosInf \<and> buildPrice (Fin q) = PosInf"
    by simp
  show ?thesis
    unfolding Fin by (intro conjI d g a f' w' i)
qed

theorem price_is_max_with_floor_witness:
  "js_ge (Fin 12) (Fin 0) \<and>
   priceForKm (Fin 12) = Fin (1351079888211149 / 140737488355328) \<and>
   buildPrice (Fin 12) = Fin 500 \<and>
   js_ge (priceForKm (Fin 12)) (Fin MINIMUM_COST) \<and> js_ge (buildPrice (Fin 12)) (Fin MINIMUM_COST2)"
proof -
  have h: "js_ge (Fin 12) (Fin 0)" by simp
  have v: "priceForKm (Fin 12) = Fin (1351079888211149 / 140737488355328)"
    "buildPrice (Fin 12) = Fin 500"
    by code_simp+
  from price_is_max_with_floor [OF h]
  have g: "js_ge (priceForKm (Fin 12)) (Fin MINIMUM_COST)"
    "js_ge (buildPrice (Fin 12)) (Fin MINIMUM_COST2)"
    by blast+
  show ?thesis using h v g by blast
qed

text \<open>
  C4. From the break-even distance (minimum price divided by rate) on, the price is exactly
  distance times rate: the floor is inactive. Both copies.
\<close>

theorem floor_inactive_from_break_even:
  "(js_ge d (Fin (MINIMUM_COST / DELIVERY_TARIF)) \<longrightarrow>
      priceForKm d = js_mul d (Fin DELIVERY_TARIF)) \<and>
   (js_ge d (Fin (MINIMUM_COST2 / DELIVERY_TARIF2)) \<longrightarrow>
      buildPrice d = js_mul d (Fin DELIVERY_TARIF2))"
proof (cases d)
  case (Fin q)
  have c1: "js_max (round64 (q * DELIVERY_TARIF)) (Fin 1) = round64 (q * DELIVERY_TARIF)"
    if "MINIMUM_COST / DELIVERY_TARIF \<le> q"
  proof -
    have "rat_of_int 1 \<le> q * DELIVERY_TARIF"
      using that by (simp add: MINIMUM_COST_def DELIVERY_TARIF_def field_simps)
    from round64_ge_int [OF this] show ?thesis by (intro js_max_ge) simp
  qed
  have c2: "js_max (round64 (q * DELIVERY_TARIF2)) (Fin 500) = round64 (q * DELIVERY_TARIF2)"
    if "MINIMUM_COST2 / DELIVERY_TARIF2 \<le> q"
  proof -
    have "rat_of_int 500 \<le> q * DELIVERY_TARIF2"
      using that by (simp add: MINIMUM_COST2_def DELIVERY_TARIF2_def field_simps)
    from round64_ge_int [OF this] show ?thesis by (intro js_max_ge) simp
  qed
  show ?thesis
    unfolding Fin priceForKm_def buildPrice_def
    using c1 c2 by (simp add: MINIMUM_COST_def MINIMUM_COST2_def)
qed (simp_all add: priceForKm_def buildPrice_def DELIVERY_TARIF_def DELIVERY_TARIF2_def
        MINIMUM_COST_def MINIMUM_COST2_def inf_of_sign_def)

theorem floor_inactive_from_break_even_witness:
  "js_ge (Fin 25) (Fin (MINIMUM_COST / DELIVERY_TARIF)) \<and>
   js_ge (Fin 25) (Fin (MINIMUM_COST2 / DELIVERY_TARIF2)) \<and>
   priceForKm (Fin 25) = Fin 20 \<and> buildPrice (Fin 25) = Fin 500"
proof -
  have h: "js_ge (Fin 25) (Fin (MINIMUM_COST / DELIVERY_TARIF))"
    "js_ge (Fin 25) (Fin (MINIMUM_COST2 / DELIVERY_TARIF2))"
    by (simp_all add: MINIMUM_COST_def DELIVERY_TARIF_def MINIMUM_COST2_def DELIVERY_TARIF2_def)
  have v: "js_mul (Fin 25) (Fin DELIVERY_TARIF) = Fin 20"
    "js_mul (Fin 25) (Fin DELIVERY_TARIF2) = Fin 500"
    by code_simp+
  from floor_inactive_from_break_even [of "Fin 25"] h
  have "priceForKm (Fin 25) = js_mul (Fin 25) (Fin DELIVERY_TARIF)"
    "buildPrice (Fin 25) = js_mul (Fin 25) (Fin DELIVERY_TARIF2)"
    by blast+
  with h v show ?thesis by simp
qed

text \<open>The price of a distance whose product with the rate leaves the range is plus infinity.\<close>

lemma price_of_huge_distance: "buildPrice (Fin (10 ^ 308)) = PosInf"
proof -
  have "(2::rat) ^ 1024 \<le> 10 ^ 308 * 20" by simp
  from round64_overflow [OF this] show ?thesis
    by (simp add: buildPrice_def DELIVERY_TARIF2_def)
qed

section \<open>The duration formatter\<close>

text \<open>
  The floor of a binary64 quotient is the integer quotient, for a dividend below \<open>2 ^ 53\<close>
  and a small divisor: the rounding error is less than the distance of the exact quotient
  from the next integer.
\<close>

lemma floor_round64_div:
  assumes "0 \<le> s" "s < 2 ^ 53" "0 < n" "n \<le> 3600"
  shows "js_floor (js_div (Fin (of_int s)) (Fin (of_int n))) = Fin (of_int (s div n))"
proof -
  let ?x = "rat_of_int s / rat_of_int n"
  have n0: "rat_of_int n \<noteq> 0" "0 < rat_of_int n" using assms(3) by simp_all
  have dv: "js_div (Fin (of_int s)) (Fin (of_int n)) = round64 ?x" using n0 by simp
  have k0: "0 \<le> s div n" using assms(1,3) by (simp add: pos_imp_zdiv_nonneg_iff)
  have kle: "s div n \<le> s" using assms(1,3) zdiv_mono2 [of s 1 n] by simp
  show ?thesis
  proof (cases "s mod n = 0")
    case True
    then have "s = n * (s div n)" by auto
    then have "rat_of_int s = of_int n * of_int (s div n)" by (metis of_int_mult)
    then have x: "?x = of_int (s div n)" using n0 by simp
    have "\<bar>s div n\<bar> < 2 ^ 53" using k0 kle assms(2) by simp
    from round64_int [OF this] show ?thesis unfolding dv x by simp
  next
    case False
    define k where "k = s div n"
    define r where "r = s mod n"
    have r: "1 \<le> r" "r \<le> n - 1"
      using False assms(3) pos_mod_sign[of n s] pos_mod_bound[of n s] unfolding r_def by linarith+
    have "s = n * k + r" unfolding k_def r_def by simp
    then have "rat_of_int s = of_int n * of_int k + of_int r" by (metis of_int_add of_int_mult)
    then have x: "?x = of_int k + of_int r / of_int n" using n0 by (simp add: field_simps)
    have "rat_of_int 1 \<le> of_int r" "rat_of_int r \<le> of_int (n - 1)"
      using r by (simp_all only: of_int_le_iff)
    then have rb: "1 / rat_of_int n \<le> of_int r / of_int n"
      "of_int r / rat_of_int n \<le> 1 - 1 / of_int n"
      using n0 by (simp_all add: field_simps)
    have xl: "of_int k + 1 / rat_of_int n \<le> ?x" and xu: "?x \<le> of_int k + 1 - 1 / rat_of_int n"
      unfolding x using rb by simp_all
    have "rat_of_int 0 \<le> of_int k" using k0 unfolding k_def by (simp only: of_int_le_iff)
    then have kq: "(0::rat) \<le> of_int k" by simp
    have xp: "1 / rat_of_int n \<le> ?x" using xl kq by linarith
    have "rat_of_int n \<le> of_int 3600" using assms(4) by (simp only: of_int_le_iff)
    then have "1 / 3600 \<le> 1 / rat_of_int n" using n0 by (simp add: field_simps)
    moreover have "(2::rat) powi (- 1022) \<le> 2 powi (- 12)"
      by (intro power_int_increasing) simp_all
    moreover have "(2::rat) powi (- 12) = 1 / 4096" by (simp add: power_int_minus_divide)
    ultimately have normal: "2 powi (- 1022) \<le> \<bar>?x\<bar>" using xp by linarith
    have "rat_of_int s < of_int (2 ^ 53)" using assms(2) by (simp only: of_int_less_iff)
    then have sq: "rat_of_int s < 2 ^ 53" by simp
    have "rat_of_int 0 \<le> of_int s" using assms(1) by (simp only: of_int_le_iff)
    then have s0: "(0::rat) \<le> of_int s" by simp
    have "?x \<le> of_int s / 1"
      using s0 n0 assms(3) by (intro divide_left_mono) simp_all
    then have xs: "?x \<le> of_int s" by simp
    have x0: "0 \<le> ?x" using s0 n0 by simp
    have "\<bar>?x\<bar> \<le> 2 ^ 53" using xs sq x0 by simp
    from round64_near [OF this] obtain y where y: "round64 ?x = Fin y"
      and "2 powi (- 1022) \<le> \<bar>?x\<bar> \<longrightarrow> \<bar>y - ?x\<bar> \<le> \<bar>?x\<bar> / 2 ^ 53"
      by auto
    with normal x0 have "\<bar>y - ?x\<bar> \<le> ?x / 2 ^ 53" by simp
    moreover have "?x / 2 ^ 53 < 1 / rat_of_int n"
      using sq n0 by (simp add: field_simps)
    ultimately have "\<bar>y - ?x\<bar> < 1 / rat_of_int n" by linarith
    with xl xu have "of_int k \<le> y" "y < of_int k + 1" by linarith+
    then have "\<lfloor>y\<rfloor> = k" by (simp add: floor_unique)
    then show ?thesis unfolding dv y k_def by simp
  qed
qed

lemma js_mod_of_int:
  assumes "0 \<le> s" "0 < n"
  shows "js_mod (Fin (of_int s)) (Fin (of_int n)) = Fin (of_int (s mod n))"
proof -
  have nn: "(0::rat) \<le> of_int s / of_int n" using assms by simp
  have "trunc_rat (of_int s / of_int n) = s div n"
    using nn assms by (simp add: trunc_rat_def floor_divide_of_int_eq)
  moreover have "rat_of_int s - of_int n * of_int (s div n) = of_int (s mod n)"
    by (simp add: minus_mult_div_eq_mod flip: of_int_mult of_int_diff)
  ultimately show ?thesis using assms by simp
qed

lemma fmtSeconds_finite:
  assumes "whole_seconds q < 2 ^ 53"
  shows "fmtSeconds (Number (Fin q)) =
     Some (hm_text (whole_seconds q div 3600) (whole_seconds q mod 3600 div 60))"
proof -
  define s where "s = max 0 \<lfloor>q\<rfloor>"
  have s0: "0 \<le> s" by (simp add: s_def)
  have ws: "whole_seconds q = nat s"
    unfolding whole_seconds_def s_def by (cases "0 \<le> q") (auto simp: max_def not_le floor_less_iff)
  have sb: "s < 2 ^ 53" using assms s0 unfolding ws by simp
  have sec: "js_max (Fin 0) (js_floor (Fin q)) = Fin (of_int s)"
    by (simp add: s_def max_def)
  have h: "js_floor (js_div (Fin (of_int s)) (Fin 3600)) = Fin (of_int (s div 3600))"
    using floor_round64_div [OF s0 sb, of 3600] by simp
  have m1: "js_mod (Fin (of_int s)) (Fin 3600) = Fin (of_int (s mod 3600))"
    using js_mod_of_int[OF s0, of 3600] by simp
  have mb: "0 \<le> s mod 3600" "s mod 3600 < 2 ^ 53" by simp_all
  have m: "js_floor (js_div (Fin (of_int (s mod 3600))) (Fin 60)) = Fin (of_int (s mod 3600 div 60))"
    using floor_round64_div [OF mb, of 60] by simp
  have hd: "nat (s div 3600) = nat s div 3600" using s0 by (simp add: nat_div_distrib)
  have md: "nat (s mod 3600 div 60) = nat s mod 3600 div 60"
    using s0 by (simp add: nat_div_distrib nat_mod_distrib)
  have hnn: "0 \<le> s div 3600" using s0 by (simp add: pos_imp_zdiv_nonneg_iff)
  have mnn: "0 \<le> s mod 3600 div 60" by (simp add: pos_imp_zdiv_nonneg_iff)
  have nh: "number_to_string (Fin (of_int (s div 3600))) = nat_to_string (nat s div 3600)"
    using hnn hd by simp
  have nm: "number_to_string (Fin (of_int (s mod 3600 div 60))) = nat_to_string (nat s mod 3600 div 60)"
    using mnn md by simp
  have gt: "js_gt (Fin (of_int (s div 3600))) (Fin 0) = (1 \<le> nat s div 3600)"
    using hnn hd by simp linarith
  show ?thesis
    unfolding ws hm_text_def
    by (simp only: fmtSeconds.simps js_isNaN.simps if_False Let_def sec h m1 m nh nm gt) simp
qed

lemma formatSecondsToHm_fmtSeconds: "formatSecondsToHm v = fmtSeconds v"
proof (cases v)
  case (Number n)
  then show ?thesis by (simp only: formatSecondsToHm.simps fmtSeconds.simps)
qed simp_all

lemma is_digit_digit_char: "d < 10 \<Longrightarrow> is_digit (digit_char d)"
proof -
  assume "d < 10"
  then have "d \<in> {0,1,2,3,4,5,6,7,8,9}" by auto
  then show ?thesis by (auto simp: is_digit_def digit_char_def)
qed

lemma nat_to_string_digits: "list_all is_digit (nat_to_string n) \<and> nat_to_string n \<noteq> []"
proof (induction n rule: nat_to_string.induct)
  case (1 n)
  show ?case
  proof (cases "n < 10")
    case True
    then show ?thesis by (simp add: nat_to_string.simps[of n] is_digit_digit_char)
  next
    case False
    with 1 show ?thesis by (simp add: nat_to_string.simps[of n] is_digit_digit_char)
  qed
qed

lemma span_digits:
  assumes "\<not> is_digit c"
  shows "takeWhile is_digit (nat_to_string n @ c # r) = nat_to_string n"
    and "dropWhile is_digit (nat_to_string n @ c # r) = c # r"
  using nat_to_string_digits[of n] assms
  by (simp_all add: takeWhile_append2 dropWhile_append2 list_all_iff)

lemma not_digit_space: "\<not> is_digit CHR '' ''" and not_digit_dot: "\<not> is_digit CHR ''.''"
  and not_digit_minus: "\<not> is_digit CHR ''-''"
  by (simp_all add: is_digit_def)

lemma is_duration_text_hm: "is_duration_text (hm_text H M)"
  using nat_to_string_digits[of H] nat_to_string_digits[of M]
  by (simp add: is_duration_text_def hm_text_def span_digits not_digit_space Let_def)

text \<open>
  C5, as amended. The duration formatter of either copy returns \<^verbatim>\<open>null\<close> for \<^verbatim>\<open>null\<close>,
  \<^verbatim>\<open>undefined\<close> and \<open>NaN\<close>. For minus infinity and for every finite number of fewer than
  \<open>2 ^ 53\<close> whole seconds it clamps at zero, floors to whole seconds \<open>s\<close> and renders the
  hours \<open>s div 3600\<close> and the minutes \<open>s mod 3600 div 60\<close>, the hours only when there is at
  least one. Below \<open>2 ^ 53\<close> the binary64 quotients have the exact integer parts. The four
  examples of the specification are instances.
\<close>

theorem duration_text_of_number:
  "fmtSeconds Null = None \<and> fmtSeconds Undefined = None \<and> fmtSeconds (Number NaN) = None \<and>
   formatSecondsToHm Null = None \<and> formatSecondsToHm Undefined = None \<and>
   formatSecondsToHm (Number NaN) = None \<and>
   fmtSeconds (Number NegInf) = Some ''0 min'' \<and>
   formatSecondsToHm (Number NegInf) = Some ''0 min'' \<and>
   (whole_seconds q < 2 ^ 53 \<longrightarrow>
      fmtSeconds (Number (Fin q)) =
        Some (hm_text (whole_seconds q div 3600) (whole_seconds q mod 3600 div 60)) \<and>
      formatSecondsToHm (Number (Fin q)) =
        Some (hm_text (whole_seconds q div 3600) (whole_seconds q mod 3600 div 60)) \<and>
      is_duration_text (hm_text (whole_seconds q div 3600) (whole_seconds q mod 3600 div 60))) \<and>
   fmtSeconds (Number (Fin 0)) = Some ''0 min'' \<and>
   fmtSeconds (Number (Fin 3661)) = Some ''1 h 1 min'' \<and>
   fmtSeconds (Number (Fin (- 5))) = Some ''0 min''"
proof -
  have ex: "fmtSeconds (Number (Fin 0)) = Some ''0 min''"
    "fmtSeconds (Number (Fin 3661)) = Some ''1 h 1 min''"
    "fmtSeconds (Number (Fin (- 5))) = Some ''0 min''"
    by code_simp+
  have ninf: "fmtSeconds (Number NegInf) = Some ''0 min''"
    by code_simp
  have nulls: "fmtSeconds Null = None" "fmtSeconds Undefined = None"
    "fmtSeconds (Number NaN) = None"
    by simp_all
  note gen = fmtSeconds_finite [of q] is_duration_text_hm
  show ?thesis
    unfolding formatSecondsToHm_fmtSeconds
    by (intro conjI impI) (rule nulls ex ninf gen, assumption?)+
qed

theorem duration_text_of_number_witness:
  "whole_seconds 3661 < 2 ^ 53 \<and>
   fmtSeconds (Number (Fin 3661)) = Some ''1 h 1 min'' \<and>
   formatSecondsToHm (Number (Fin 3661)) = Some ''1 h 1 min'' \<and>
   is_duration_text ''1 h 1 min''"
proof -
  have h: "whole_seconds 3661 < 2 ^ 53" by (simp add: whole_seconds_def)
  have t: "hm_text (whole_seconds 3661 div 3600) (whole_seconds 3661 mod 3600 div 60) =
      ''1 h 1 min''"
    by code_simp
  from duration_text_of_number [of 3661] h show ?thesis
    unfolding t by blast
qed

text \<open>
  C5 as stated fails at plus infinity: the hours print as \<^verbatim>\<open>Infinity\<close> and the minutes as
  \<^verbatim>\<open>NaN\<close>, which is no text of hours and minutes.
\<close>

theorem duration_of_infinity:
  "fmtSeconds (Number PosInf) = Some ''Infinity h NaN min'' \<and>
   formatSecondsToHm (Number PosInf) = Some ''Infinity h NaN min'' \<and>
   \<not> is_duration_text ''Infinity h NaN min''"
  by code_simp

text \<open>
  The bound on the whole seconds matters. The binary64 quotient of \<open>10 ^ 19\<close> seconds by
  3600 is a whole number already, the next one above the hours: the formatter prints one
  hour more than there are.
\<close>

lemma duration_beyond_bound:
  "fmtSeconds (Number (Fin (10 ^ 19))) = Some ''2777777777777778 h 46 min'' \<and>
   whole_seconds (10 ^ 19) div 3600 = 2777777777777777"
proof -
  have sec: "js_max (Fin 0) (js_floor (Fin (10 ^ 19))) = Fin (10 ^ 19)"
    by code_simp
  have h: "js_floor (js_div (Fin (10 ^ 19)) (Fin 3600)) = Fin 2777777777777778"
    by code_simp
  have m: "js_floor (js_div (js_mod (Fin (10 ^ 19)) (Fin 3600)) (Fin 60)) = Fin 46"
    by code_simp
  have n: "nat_to_string 2777777777777778 = ''2777777777777778''" "nat_to_string 46 = ''46''"
    by (simp_all add: nat_to_string.simps digit_char_def)
  have f: "\<lfloor>2777777777777778 :: rat\<rfloor> = 2777777777777778" "\<lfloor>46 :: rat\<rfloor> = 46"
    by simp_all
  have t: "fmtSeconds (Number (Fin (10 ^ 19))) = Some ''2777777777777778 h 46 min''"
    by (simp only: fmtSeconds.simps js_isNaN.simps if_False Let_def sec h m) (simp add: n)
  have w: "whole_seconds (10 ^ 19) div 3600 = 2777777777777777"
    by (simp add: whole_seconds_def)
  from t w show ?thesis by blast
qed

text \<open>
  C10. The duration formatters of the two copies return the same result on every input of
  their documented type.
\<close>

theorem duration_formatters_agree: "fmtSeconds v = formatSecondsToHm v"
  by (simp only: formatSecondsToHm_fmtSeconds)

section \<open>The money formatter\<close>

lemma is_money_text_money: "is_money_text (money_text k)"
proof -
  define b where "b = nat_to_string (nat \<bar>k\<bar> div 100) @
     CHR ''.'' # [digit_char (nat \<bar>k\<bar> div 10 mod 10), digit_char (nat \<bar>k\<bar> mod 10)]"
  have ne: "nat_to_string (nat \<bar>k\<bar> div 100) \<noteq> []"
    and dg: "list_all is_digit (nat_to_string (nat \<bar>k\<bar> div 100))"
    using nat_to_string_digits by blast+
  have hdb: "is_digit (hd b)" "b \<noteq> []"
    using ne dg unfolding b_def by (cases "nat_to_string (nat \<bar>k\<bar> div 100)"; simp)+
  have t: "(if money_text k \<noteq> [] \<and> hd (money_text k) = CHR ''-''
            then tl (money_text k) else money_text k) = b"
  proof (cases "k < 0")
    case True
    then show ?thesis by (simp add: money_text_def b_def)
  next
    case False
    then have "money_text k = b" by (simp add: money_text_def b_def)
    moreover have "hd b \<noteq> CHR ''-''" using hdb not_digit_minus by metis
    ultimately show ?thesis by simp
  qed
  have "takeWhile is_digit b = nat_to_string (nat \<bar>k\<bar> div 100)"
    and "dropWhile is_digit b =
      CHR ''.'' # [digit_char (nat \<bar>k\<bar> div 10 mod 10), digit_char (nat \<bar>k\<bar> mod 10)]"
    unfolding b_def by (rule span_digits[OF not_digit_dot])+
  then show ?thesis
    unfolding is_money_text_def t Let_def using ne by (simp add: is_digit_digit_char)
qed

text \<open>The digits that \<^verbatim>\<open>toFixed(2)\<close> prints for \<open>n\<close> hundredths.\<close>

lemma fixed_text_2:
  "fixed_text 2 n =
     nat_to_string (n div 100) @ ''.'' @ [digit_char (n div 10 mod 10), digit_char (n mod 10)]"
proof -
  consider "n < 10" | "10 \<le> n" "n < 100" | "100 \<le> n" by linarith
  then show ?thesis
  proof cases
    case 1
    then have "nat_to_string n = [digit_char n]" "nat_to_string (n div 100) = [digit_char 0]"
      by (simp_all add: nat_to_string.simps)
    with 1 show ?thesis
      by (simp add: fixed_text_def Let_def digit_char_def numeral_2_eq_2)
  next
    case 2
    then have z: "n div 100 = 0" by simp
    have "nat_to_string n = [digit_char (n div 10), digit_char (n mod 10)]"
      "nat_to_string (n div 100) = [digit_char 0]"
      unfolding z using 2
      by (simp_all add: nat_to_string.simps[of n] nat_to_string.simps[of "n div 10"]
          nat_to_string.simps[of 0])
    with 2 show ?thesis
      by (simp add: fixed_text_def Let_def digit_char_def numeral_2_eq_2)
  next
    case 3
    then have a: "\<not> n < 10" "\<not> n div 10 < 10" by simp_all
    have d: "n div 10 div 10 = n div 100" by (simp add: div_mult2_eq)
    have s: "nat_to_string n =
        nat_to_string (n div 100) @ [digit_char (n div 10 mod 10), digit_char (n mod 10)]"
      using a by (simp add: nat_to_string.simps[of n] nat_to_string.simps[of "n div 10"] d)
    have l: "length (nat_to_string n) = length (nat_to_string (n div 100)) + 2"
      unfolding s by simp
    have ne: "Suc 0 \<le> length (nat_to_string (n div 100))"
      using nat_to_string_digits [of "n div 100"] by (cases "nat_to_string (n div 100)") simp_all
    show ?thesis
      unfolding fixed_text_def Let_def l
      using ne by (simp add: s)
  qed
qed

lemma toFixed_2_rounded:
  assumes "\<bar>k\<bar> < 2 ^ 52"
  shows "toFixed 2 (js_div (Fin (of_int k)) (Fin 100)) = Inr (money_text k)"
proof (cases "k = 0")
  case True
  have "\<lfloor>(1::rat) / 2\<rfloor> = 0" by (rule floor_unique) simp_all
  then show ?thesis
    using True by (simp add: round64_def money_text_def fixed_text_2)
next
  case False
  let ?x = "rat_of_int k / 100"
  have kq: "\<bar>rat_of_int k\<bar> < 2 ^ 52"
  proof -
    have "rat_of_int \<bar>k\<bar> < of_int (2 ^ 52)" using assms by (simp only: of_int_less_iff)
    then show ?thesis by simp
  qed
  have k1: "1 \<le> \<bar>rat_of_int k\<bar>"
  proof -
    have "1 \<le> \<bar>k\<bar>" using False by simp
    then have "rat_of_int 1 \<le> of_int \<bar>k\<bar>" by (simp only: of_int_le_iff)
    then show ?thesis by simp
  qed
  have "\<bar>?x\<bar> \<le> 2 ^ 52" using kq by simp
  from round64_near [OF this] obtain b where b: "round64 ?x = Fin b"
    and rel: "2 powi (- 1022) \<le> \<bar>?x\<bar> \<longrightarrow> \<bar>b - ?x\<bar> \<le> \<bar>?x\<bar> / 2 ^ 53"
    and sg: "0 \<le> ?x \<longrightarrow> 0 \<le> b" "?x \<le> 0 \<longrightarrow> b \<le> 0"
    by auto
  have "(2::rat) powi (- 1022) \<le> 2 powi (- 7)" by (intro power_int_increasing) simp_all
  moreover have "(2::rat) powi (- 7) = 1 / 128" by (simp add: power_int_minus_divide)
  ultimately have "2 powi (- 1022) \<le> \<bar>?x\<bar>" using k1 by simp
  with rel have e: "\<bar>b - ?x\<bar> \<le> \<bar>?x\<bar> / 2 ^ 53" by simp
  have "\<bar>b * 100 - of_int k\<bar> = \<bar>b - ?x\<bar> * 100" by (simp add: abs_if field_simps)
  also have "\<dots> \<le> \<bar>?x\<bar> / 2 ^ 53 * 100" using e by simp
  also have "\<dots> = \<bar>rat_of_int k\<bar> / 2 ^ 53" by simp
  also have "\<dots> < 1 / 2" using kq by simp
  finally have near: "\<bar>b * 100 - of_int k\<bar> < 1 / 2" .
  have sign: "(b < 0) = (k < 0)"
  proof (cases "k < 0")
    case True
    then have "rat_of_int k < of_int 0" by (simp only: of_int_less_iff)
    then have "rat_of_int k \<le> - 1" using k1 by simp
    with near have "b * 100 < 0" by (simp add: abs_if split: if_splits)
    with True show ?thesis by simp
  next
    case False
    then have "rat_of_int 0 \<le> of_int k" by (simp only: of_int_le_iff)
    with sg(1) have "0 \<le> b" by simp
    with False show ?thesis by simp
  qed
  have ab: "\<bar>b\<bar> * 100 = \<bar>b * 100\<bar>" by (simp add: abs_mult)
  have "\<bar>\<bar>b * 100\<bar> - \<bar>rat_of_int k\<bar>\<bar> \<le> \<bar>b * 100 - of_int k\<bar>" by (rule abs_triangle_ineq3)
  with near have n1: "\<bar>\<bar>b\<bar> * 100 - of_int \<bar>k\<bar>\<bar> < 1 / 2" unfolding ab by simp
  then have "of_int \<bar>k\<bar> \<le> \<bar>b\<bar> * 100 + 1 / 2" "\<bar>b\<bar> * 100 + 1 / 2 < of_int \<bar>k\<bar> + 1"
    by (simp_all add: abs_if split: if_splits)
  then have n: "\<lfloor>\<bar>b\<bar> * 100 + 1 / 2\<rfloor> = \<bar>k\<bar>" by (simp add: floor_unique)
  have small: "\<not> 10 ^ 21 \<le> \<bar>b\<bar>"
  proof -
    have "\<bar>b\<bar> * 100 < of_int \<bar>k\<bar> + 1 / 2" using n1 by (simp add: abs_if split: if_splits)
    also have "\<dots> < 2 ^ 52 + 1 / 2" using kq by simp
    finally show ?thesis by simp
  qed
  have d: "js_div (Fin (of_int k)) (Fin 100) = Fin b" using b by simp
  show ?thesis
    unfolding d money_text_def
    using small n sign by (simp add: fixed_text_2 Let_def)
qed

text \<open>
  The amount in hundredths that the formatter prints is the integer nearest to the
  binary64 product of the value and 100; it is within half a hundredth, and the relative
  error of that product, of the value.
\<close>

lemma fmtMoney_finite:
  assumes "\<bar>v\<bar> \<le> 2 ^ 45"
  shows "\<exists>k. fmtMoney (Number (Fin v)) = Inr (money_text k) \<and>
             \<bar>of_int k / 100 - v\<bar> \<le> 1 / 200 + \<bar>v\<bar> / 2 ^ 53"
proof -
  let ?x = "v * 100"
  have "\<bar>?x\<bar> = \<bar>v\<bar> * 100" by (simp add: abs_mult)
  also have "\<dots> \<le> 2 ^ 45 * 100" using assms by simp
  finally have xb: "\<bar>?x\<bar> \<le> 2 ^ 45 * 100" .
  then have "\<bar>?x\<bar> \<le> 2 ^ 52" by simp
  from round64_near [OF this] obtain a where a: "round64 ?x = Fin a"
    and half: "\<bar>a - ?x\<bar> \<le> 2 ^ 52 / 2 ^ 53"
    and rel: "2 powi (- 1022) \<le> \<bar>?x\<bar> \<longrightarrow> \<bar>a - ?x\<bar> \<le> \<bar>?x\<bar> / 2 ^ 53"
    by auto
  define k where "k = \<lfloor>a + 1 / 2\<rfloor>"
  have kf: "of_int k \<le> a + 1 / 2" "a + 1 / 2 < of_int k + 1" unfolding k_def by linarith+
  have r: "js_round (js_mul (Fin v) (Fin 100)) = Fin (of_int k)" using a by (simp add: k_def)
  have "\<bar>rat_of_int k\<bar> \<le> 2 ^ 45 * 100 + 1"
    using kf half xb by (simp add: abs_if split: if_splits)
  then have "\<bar>rat_of_int k\<bar> < of_int (2 ^ 52)" by simp
  then have "rat_of_int \<bar>k\<bar> < of_int (2 ^ 52)" by simp
  then have kb: "\<bar>k\<bar> < 2 ^ 52" by (simp only: of_int_less_iff)
  have out: "fmtMoney (Number (Fin v)) = Inr (money_text k)"
    using toFixed_2_rounded [OF kb] by (simp only: fmtMoney.simps js_isNaN.simps if_False r)
  have acc: "\<bar>of_int k / 100 - v\<bar> \<le> 1 / 200 + \<bar>v\<bar> / 2 ^ 53"
  proof (cases "2 powi (- 1022) \<le> \<bar>?x\<bar>")
    case True
    with rel have "\<bar>a - ?x\<bar> \<le> \<bar>v\<bar> * 100 / 2 ^ 53" by (simp add: abs_mult)
    with kf have "\<bar>of_int k - v * 100\<bar> \<le> 1 / 2 + \<bar>v\<bar> * 100 / 2 ^ 53"
      by (simp add: abs_if split: if_splits)
    moreover have "\<bar>of_int k / 100 - v\<bar> = \<bar>of_int k - v * 100\<bar> / 100"
      by (simp add: abs_if field_simps)
    ultimately show ?thesis by simp
  next
    case False
    have "(2::rat) powi (- 1022) \<le> 2 powi (- 7)" by (intro power_int_increasing) simp_all
    moreover have "(2::rat) powi (- 7) = 1 / 128" by (simp add: power_int_minus_divide)
    ultimately have tiny: "\<bar>?x\<bar> < 1 / 128" using False by linarith
    then have "\<bar>?x\<bar> \<le> 2 ^ 0" by simp
    from round64_near [OF this] a have "\<bar>a - ?x\<bar> \<le> 1 / 2 ^ 53" by simp
    with tiny have "- (1 / 2) \<le> a" "a < 1 / 2" by (simp_all add: abs_if split: if_splits)
    then have "k = 0" unfolding k_def by (simp add: floor_unique)
    moreover have "\<bar>v\<bar> \<le> 1 / 200" using tiny by (simp add: abs_mult)
    ultimately show ?thesis by simp
  qed
  from out acc show ?thesis by blast
qed

lemma toFixed_2_returns: "toFixed 2 n \<noteq> Inl err"
  by (cases n) (simp_all add: Let_def)

lemma fmtMoney_returns: "fmtMoney x \<noteq> Inl err"
proof (cases x)
  case (Number n)
  then show ?thesis using toFixed_2_returns by simp
qed simp_all

text \<open>
  C6, as amended. The money formatter returns the placeholder for \<^verbatim>\<open>null\<close>, \<^verbatim>\<open>undefined\<close>
  and \<open>NaN\<close>, and it throws on no input. For a finite value of a magnitude up to \<open>2 ^ 45\<close>
  it returns an amount written with exactly two decimal digits; the amount is the value
  rounded to hundredths as the binary64 product with 100 rounds, within half a hundredth
  and the relative error \<open>1 / 2 ^ 53\<close> of the value. The binary64 number \<^verbatim>\<open>0.015\<close>, which
  is less than 15 thousandths and has 1 as its nearest amount of hundredths, prints as
  \<^verbatim>\<open>0.02\<close>: its product with 100 rounds to 1.5.
\<close>

theorem money_text_of_number:
  "fmtMoney Null = Inr em_dash \<and> fmtMoney Undefined = Inr em_dash \<and>
   fmtMoney (Number NaN) = Inr em_dash \<and>
   fmtMoney x \<noteq> Inl err \<and>
   (\<bar>v\<bar> \<le> 2 ^ 45 \<longrightarrow>
      (\<exists>k. fmtMoney (Number (Fin v)) = Inr (money_text k) \<and> is_money_text (money_text k) \<and>
           \<bar>of_int k / 100 - v\<bar> \<le> 1 / 200 + \<bar>v\<bar> / 2 ^ 53)) \<and>
   fmtMoney (Number (Fin (1080863910568919 / 72057594037927936))) = Inr ''0.02'' \<and>
   hundredths (1080863910568919 / 72057594037927936) = 1"
proof -
  have ex: "fmtMoney (Number (Fin (1080863910568919 / 72057594037927936))) = Inr ''0.02''"
    by code_simp
  have h: "hundredths (1080863910568919 / 72057594037927936) = 1"
    unfolding hundredths_def by (rule floor_unique) simp_all
  have nulls: "fmtMoney Null = Inr em_dash" "fmtMoney Undefined = Inr em_dash"
    "fmtMoney (Number NaN) = Inr em_dash"
    by simp_all
  have gen: "\<exists>k. fmtMoney (Number (Fin v)) = Inr (money_text k) \<and> is_money_text (money_text k) \<and>
           \<bar>of_int k / 100 - v\<bar> \<le> 1 / 200 + \<bar>v\<bar> / 2 ^ 53" if "\<bar>v\<bar> \<le> 2 ^ 45"
    using fmtMoney_finite [OF that] is_money_text_money by blast
  show ?thesis
    by (intro conjI impI) (rule nulls ex h fmtMoney_returns gen, assumption?)+
qed

theorem money_text_of_number_witness:
  "\<bar>6949617174986097 / 562949953421312 :: rat\<bar> \<le> 2 ^ 45 \<and>
   fmtMoney (Number (Fin (6949617174986097 / 562949953421312))) = Inr ''12.35'' \<and>
   is_money_text ''12.35''"
proof -
  have b: "\<bar>6949617174986097 / 562949953421312 :: rat\<bar> \<le> 2 ^ 45" by simp
  have t: "fmtMoney (Number (Fin (6949617174986097 / 562949953421312))) = Inr ''12.35''"
    by code_simp
  from money_text_of_number [of _ _ "6949617174986097 / 562949953421312"] b
  obtain k where "fmtMoney (Number (Fin (6949617174986097 / 562949953421312))) = Inr (money_text k)"
    and m: "is_money_text (money_text k)"
    by blast
  with t have "money_text k = ''12.35''" by simp
  with m have "is_money_text ''12.35''" by simp
  with b t show ?thesis by blast
qed

text \<open>
  C6 as stated fails at plus infinity, which is a value other than \<^verbatim>\<open>null\<close>, \<^verbatim>\<open>undefined\<close>
  and \<open>NaN\<close>: the result has no decimal digits at all.
\<close>

theorem money_of_infinity:
  "fmtMoney (Number PosInf) = Inr ''Infinity'' \<and> \<not> is_money_text ''Infinity''"
  by code_simp

text \<open>
  The bound on the magnitude matters. For the binary64 number \<^verbatim>\<open>123456789012345.67\<close> the
  rounded product with 100 is the whole number 12345678901234568, and its quotient by 100
  is a binary64 number that prints with the digits 69.
\<close>

lemma money_beyond_bound:
  "js_round (js_mul (Fin (7901234496790123 / 64)) (Fin 100)) = Fin 12345678901234568 \<and>
   fmtMoney (Number (Fin (7901234496790123 / 64))) = Inr ''123456789012345.69''"
proof -
  have k: "js_round (js_mul (Fin (7901234496790123 / 64)) (Fin 100)) = Fin 12345678901234568"
    by code_simp
  have x: "js_div (Fin 12345678901234568) (Fin 100) = Fin (1975308624197531 / 16)"
    by code_simp
  have n: "\<lfloor>\<bar>1975308624197531 / 16 :: rat\<bar> * 10 ^ nat 2 + 1 / 2\<rfloor> = 12345678901234569"
    by (rule floor_unique) simp_all
  have s: "nat_to_string 123456789012345 = ''123456789012345''"
    by (simp add: nat_to_string.simps digit_char_def)
  have t: "toFixed 2 (Fin (1975308624197531 / 16)) = Inr ''123456789012345.69''"
    unfolding toFixed.simps Let_def n by (simp add: fixed_text_2 s digit_char_def)
  have "fmtMoney (Number (Fin (7901234496790123 / 64))) = Inr ''123456789012345.69''"
    by (simp only: fmtMoney.simps js_isNaN.simps if_False k x t)
  with k show ?thesis by blast
qed

section \<open>Duration extraction: the probe order\<close>

lemma first_nonneg_number_append:
  "first_nonneg_number (xs @ ys) =
     (case first_nonneg_number xs of Some n \<Rightarrow> Some n | None \<Rightarrow> first_nonneg_number ys)"
  by (induction xs rule: first_nonneg_number.induct) (simp_all split: option.splits)

lemma direct_time_probe:
  "direct_time r = first_nonneg_number [call_result (getTime r)]"
proof (cases "getTime r")
  case None
  then show ?thesis by (simp add: direct_time_def call_result_def)
next
  case (Some a)
  then show ?thesis
    by (cases a) (simp_all add: direct_time_def call_result_def split: option.splits)
qed

lemma direct_methods_probe:
  "direct_methods r =
     first_nonneg_number
       [call_result (getJamsTime (skip_time_on_throw r)), call_result (getTime (skip_time_on_throw r))]"
proof (cases "getJamsTime r")
  case None
  then show ?thesis
    by (simp add: direct_methods_def skip_time_on_throw_def direct_time_probe call_result_def)
next
  case (Some a)
  show ?thesis
  proof (cases a)
    case (Returns jt)
    with Some show ?thesis
      by (simp add: direct_methods_def skip_time_on_throw_def direct_time_probe call_result_def
          split: option.splits)
  next
    case Throws
    with Some show ?thesis
      by (simp add: direct_methods_def skip_time_on_throw_def call_result_def)
  qed
qed

lemma properties_blob_probe:
  assumes "blob_nonneg r"
  shows "properties_blob r =
     first_nonneg_number [duration_field r ''value'', duration_field r ''duration'']"
proof (cases "call_result (properties_get r)")
  case None
  then have "properties_blob r = None"
    by (auto simp: properties_blob_def call_result_def split: option.splits outcome.splits)
  with None show ?thesis by (simp add: duration_field_def)
next
  case (Some dur)
  then have pg: "properties_get r = Some (Returns dur)"
    by (auto simp: call_result_def split: option.splits outcome.splits)
  show ?thesis
  proof (cases "truthy dur")
    case False
    with pg Some show ?thesis by (simp add: properties_blob_def duration_field_def)
  next
    case True
    show ?thesis
    proof (cases "as_number (get_field dur ''value'')")
      case (Some n)
      with assms pg True have "js_ge n (Fin 0)"
        by (simp add: blob_nonneg_def properties_blob_def)
      with Some pg True \<open>call_result (properties_get r) = Some dur\<close> show ?thesis
        by (simp add: properties_blob_def duration_field_def as_nonneg_number_def)
    next
      case None
      note v = None
      show ?thesis
      proof (cases "as_number (get_field dur ''duration'')")
        case None
        with v pg True \<open>call_result (properties_get r) = Some dur\<close> show ?thesis
          by (simp add: properties_blob_def duration_field_def as_nonneg_number_def)
      next
        case (Some n)
        with assms pg True v have "js_ge n (Fin 0)"
          by (simp add: blob_nonneg_def properties_blob_def)
        with Some v pg True \<open>call_result (properties_get r) = Some dur\<close> show ?thesis
          by (simp add: properties_blob_def duration_field_def as_nonneg_number_def)
      qed
    qed
  qed
qed

lemma skip_time_fields: "properties_get (skip_time_on_throw r) = properties_get r"
  by (simp add: skip_time_on_throw_def)

lemma fallback_nonneg:
  assumes "js_ge len (Fin 0)"
  shows "js_ge (fallback_seconds len) (Fin 0)"
proof (cases len)
  case (Fin m)
  with assms have m: "0 \<le> m / 1000" by simp
  have st: "js_ge (js_round (js_mul (js_div x (Fin 40)) (Fin 3600))) (Fin 0)"
    if "x = PosInf \<or> (\<exists>a. x = Fin a \<and> 0 \<le> a)" for x
  proof (cases "x = PosInf")
    case True
    then show ?thesis by (simp add: inf_of_sign_def)
  next
    case False
    with that obtain a where a: "x = Fin a" "0 \<le> a" by blast
    then have "0 \<le> a / 40" by simp
    from round64_pos [OF this] show ?thesis
    proof
      assume "round64 (a / 40) = PosInf"
      then show ?thesis using a by (simp add: inf_of_sign_def)
    next
      assume "\<exists>r. round64 (a / 40) = Fin r \<and> 0 \<le> r"
      then obtain b where b: "round64 (a / 40) = Fin b" "0 \<le> b" by blast
      then have "0 \<le> b * 3600" by simp
      from round64_pos [OF this] show ?thesis
      proof
        assume "round64 (b * 3600) = PosInf"
        then show ?thesis using a b by simp
      next
        assume "\<exists>r. round64 (b * 3600) = Fin r \<and> 0 \<le> r"
        then obtain c where c: "round64 (b * 3600) = Fin c" "0 \<le> c" by blast
        then have "0 \<le> \<lfloor>c + 1 / 2\<rfloor>" by simp
        then show ?thesis using a b c by simp
      qed
    qed
  qed
  show ?thesis
    unfolding Fin fallback_seconds_def
    using round64_pos [OF m] by (intro st) simp
qed (use assms in \<open>simp_all add: fallback_seconds_def inf_of_sign_def\<close>)

text \<open>
  The fallback for a length of up to a million kilometres: a whole number of seconds
  within half a second, and the rounding errors of the three operations, of the time
  that the length takes at 40 km/h, which is 9/100 seconds for a metre.
\<close>

lemma fallback_near:
  assumes "0 \<le> m" "m \<le> 10 ^ 9"
  shows "\<exists>k. fallback_seconds (Fin m) = Fin (of_int k) \<and> 0 \<le> k \<and>
             \<bar>of_int k - m * 9 / 100\<bar> \<le> 1 / 2 + 1 / 2 ^ 22"
proof -
  have "\<bar>m / 1000\<bar> \<le> 2 ^ 20" using assms by simp
  from round64_near [OF this] obtain a where a: "round64 (m / 1000) = Fin a"
    and ea: "\<bar>a - m / 1000\<bar> \<le> 2 ^ 20 / 2 ^ 53" and a0: "0 \<le> a"
    using assms(1) by auto
  have "a \<le> 2 ^ 21" using ea assms(2) by (simp add: abs_if split: if_splits)
  then have "\<bar>a / 40\<bar> \<le> 2 ^ 16" using a0 by simp
  from round64_near [OF this] obtain b where b: "round64 (a / 40) = Fin b"
    and eb: "\<bar>b - a / 40\<bar> \<le> 2 ^ 16 / 2 ^ 53" and b0: "0 \<le> b"
    using a0 by auto
  have "b \<le> 2 ^ 17" using eb \<open>a \<le> 2 ^ 21\<close> by (simp add: abs_if split: if_splits)
  then have "\<bar>b * 3600\<bar> \<le> 2 ^ 29" using b0 by (simp add: abs_mult)
  from round64_near [OF this] obtain c where c: "round64 (b * 3600) = Fin c"
    and ec: "\<bar>c - b * 3600\<bar> \<le> 2 ^ 29 / 2 ^ 53" and c0: "0 \<le> c"
    using b0 by auto
  define k where "k = \<lfloor>c + 1 / 2\<rfloor>"
  have kf: "of_int k \<le> c + 1 / 2" "c + 1 / 2 < of_int k + 1" unfolding k_def by linarith+
  have k0: "0 \<le> k" unfolding k_def using c0 by simp
  have f: "fallback_seconds (Fin m) = Fin (of_int k)"
    by (simp add: fallback_seconds_def a b c k_def)
  have "\<bar>c - m * 9 / 100\<bar> \<le> 1 / 2 ^ 22"
    using ea eb ec by (simp add: abs_if split: if_splits)
  with kf have "\<bar>of_int k - m * 9 / 100\<bar> \<le> 1 / 2 + 1 / 2 ^ 22"
    by (simp add: abs_if split: if_splits)
  with f k0 show ?thesis by blast
qed

lemma direct_methods_nonneg: "direct_methods r = Some n \<Longrightarrow> js_ge n (Fin 0)"
  unfolding direct_methods_def direct_time_def as_nonneg_number_def
  by (cases "getJamsTime r"; cases "getTime r")
     (auto split: option.splits outcome.splits if_splits)

text \<open>
  With the fields of the duration property non-negative where they are numbers, and a
  non-negative length, the extracted duration is a non-negative number.
\<close>

lemma duration_nonneg:
  assumes "blob_nonneg r" and "js_ge len (Fin 0)"
  shows "js_ge (getDurationSeconds r len) (Fin 0)"
proof (cases "direct_methods r")
  case (Some n)
  then show ?thesis using direct_methods_nonneg by (simp add: getDurationSeconds_def)
next
  case None
  then show ?thesis
    using assms fallback_nonneg
    by (cases "properties_blob r") (simp_all add: getDurationSeconds_def blob_nonneg_def)
qed

text \<open>
  C7, as amended. Where the numeric field that the duration property offers is not
  negative, the extraction returns the first non-negative number in the order jam-aware
  time, plain travel time, \<^verbatim>\<open>value\<close> field, \<^verbatim>\<open>duration\<close> field of the duration property, and
  else the fallback; but when the jam-aware accessor throws, the plain travel time is not
  asked at all. The fallback for a length of up to a million kilometres is a whole number
  of seconds, the time that the length takes at 40 km/h rounded in binary64 arithmetic:
  within half a second and \<open>1 / 2 ^ 22\<close> of it.
\<close>

theorem probe_order_of_extraction:
  assumes "blob_nonneg r"
  shows "getDurationSeconds r len = probe_order_spec (skip_time_on_throw r) len \<and>
         (0 \<le> m \<and> m \<le> 10 ^ 9 \<longrightarrow>
            (\<exists>k. fallback_seconds (Fin m) = Fin (of_int k) \<and> 0 \<le> k \<and>
                 \<bar>of_int k - m * 9 / 100\<bar> \<le> 1 / 2 + 1 / 2 ^ 22))"
proof -
  let ?r = "skip_time_on_throw r"
  have df: "duration_field ?r name = duration_field r name" for name
    by (simp add: duration_field_def skip_time_fields)
  have "probes ?r =
      [call_result (getJamsTime ?r), call_result (getTime ?r)] @
      [duration_field r ''value'', duration_field r ''duration'']"
    by (simp add: probes_def df)
  then have "first_nonneg_number (probes ?r) =
        (case direct_methods r of Some n \<Rightarrow> Some n | None \<Rightarrow> properties_blob r)"
    by (simp only: first_nonneg_number_append direct_methods_probe[symmetric]
        properties_blob_probe[OF assms, symmetric])
  then have "getDurationSeconds r len = probe_order_spec ?r len"
    by (simp add: getDurationSeconds_def probe_order_spec_def split: option.splits)
  with fallback_near [of m] show ?thesis by blast
qed

theorem probe_order_of_extraction_witness:
  "blob_nonneg blob_router \<and>
   getDurationSeconds blob_router (Fin 1000) = Fin 600 \<and>
   probe_order_spec (skip_time_on_throw blob_router) (Fin 1000) = Fin 600 \<and>
   (0::rat) \<le> 350 \<and> (350::rat) \<le> 10 ^ 9 \<and>
   fallback_seconds (Fin 350) = Fin 31 \<and>
   fallback_seconds (Fin 40000) = Fin 3600"
proof -
  have h: "blob_nonneg blob_router" by code_simp
  have v: "probe_order_spec (skip_time_on_throw blob_router) (Fin 1000) = Fin 600" by code_simp
  have f: "fallback_seconds (Fin 350) = Fin 31" "fallback_seconds (Fin 40000) = Fin 3600"
    by code_simp+
  have b: "(0::rat) \<le> 350" "(350::rat) \<le> 10 ^ 9" by simp_all
  from probe_order_of_extraction [OF h, of "Fin 1000" 350]
  have g: "getDurationSeconds blob_router (Fin 1000) =
      probe_order_spec (skip_time_on_throw blob_router) (Fin 1000)"
    by blast
  show ?thesis
    using h v f b g[unfolded v] by blast
qed

text \<open>
  C7 as stated fails when the jam-aware accessor throws: the plain travel time of 100
  seconds is the first non-negative number in the stated order, and the extraction
  returns the fallback of 3600 seconds for 40 km instead.
\<close>

theorem throwing_jams_skips_time:
  "getDurationSeconds throwing_router (Fin 40000) = Fin 3600 \<and>
   probe_order_spec throwing_router (Fin 40000) = Fin 100"
  by code_simp

text \<open>
  C9. The extraction should return a non-negative number for every router. A duration
  property whose \<^verbatim>\<open>value\<close> is -5 is returned as it is: the two direct accessors are tested
  with \<^verbatim>\<open>>= 0\<close>, the fields of the property are not.
\<close>

theorem negative_blob_is_returned:
  "getDurationSeconds negative_blob_router (Fin 1000) = Fin (- 5) \<and>
   \<not> js_ge (getDurationSeconds negative_blob_router (Fin 1000)) (Fin 0) \<and>
   fmtSeconds (Number (getDurationSeconds negative_blob_router (Fin 1000))) = Some ''0 min''"
  by code_simp

section \<open>Clicks\<close>

lemma seq_end: "(case r of Done x \<Rightarrow> seq [] x | Raised x \<Rightarrow> Raised x) = r"
  by (cases r) simp_all

lemma call_working:
  "working_sdk e \<Longrightarrow> target c = None \<Longrightarrow> call e c s = Done (s\<lparr>calls := calls s @ [c]\<rparr>)"
  by (simp add: call_def working_sdk_def)

lemma call_working_target:
  "working_sdk e \<Longrightarrow> target c = Some w \<Longrightarrow> placemark w s \<noteq> None \<Longrightarrow>
   call e c s = Done (s\<lparr>calls := calls s @ [c]\<rparr>)"
  by (simp add: call_def working_sdk_def)

lemma setupRoute_working:
  assumes "working_sdk e" "startPoint s = Some a" "finishPoint s = Some b"
  shows "startPoint (state_of (setupRoute e s)) = Some a"
    "finishPoint (state_of (setupRoute e s)) = Some b"
    "issued (state_of (setupRoute e s)) = Suc (issued s)"
    "calls (state_of (setupRoute e s)) = calls s @ [RouteRequest (issued s) a b]"
    "\<exists>s'. setupRoute e s = Done s'"
  using assms
  by (simp_all add: setupRoute_def call_working upd_def reject_pending_def new_deferred_def Let_def
      split: option.splits)

lemma click_first:
  assumes "working_sdk e" "startPoint s = None" "finishPoint s = None"
  shows "startPoint (step e v s (Click p)) = Some p"
    "finishPoint (step e v s (Click p)) = None"
    "issued (step e v s (Click p)) = issued s"
    "filter is_request (calls (step e v s (Click p))) = filter is_request (calls s)"
    "calls (step e v s (Click p)) =
       calls s @ [NewPlacemark Start p, AddPlacemark Start, ListenDragend Start]"
  using assms
  by (simp_all add: step_def onClick_def setPoint_def call_working upd_def placemark_def
      set_placemark_def set_balloon_content_def setupRoute_def)

lemma click_second:
  assumes "working_sdk e" "startPoint s = Some a" "finishPoint s = None"
  shows "startPoint (step e v s (Click p)) = Some a"
    "finishPoint (step e v s (Click p)) = Some p"
    "issued (step e v s (Click p)) = Suc (issued s)"
    "filter is_request (calls (step e v s (Click p))) =
       filter is_request (calls s) @ [RouteRequest (issued s) a p]"
    "calls (step e v s (Click p)) =
       calls s @ [NewPlacemark Finish p, AddPlacemark Finish, ListenDragend Finish,
                  RouteRequest (issued s) a p]"
proof -
  let ?m = "s\<lparr>calls := calls s @ [NewPlacemark Finish p, AddPlacemark Finish, ListenDragend Finish],
        finishPoint := Some p\<rparr>"
  have m: "setPoint e Part_000 Finish p None s = Done ?m"
    using assms
    by (simp add: setPoint_def call_working upd_def placemark_def set_placemark_def
        set_balloon_content_def)
  have c: "setPoint e Class_js Finish p None s = setupRoute e ?m"
    using assms
    by (simp add: setPoint_def call_working upd_def placemark_def set_placemark_def
        set_balloon_content_def split: result.splits)
  have sm: "startPoint ?m = Some a" "finishPoint ?m = Some p" using assms by simp_all
  note sr = setupRoute_working [OF assms(1) sm]
  have st: "step e v s (Click p) = state_of (setupRoute e ?m)"
  proof (cases v)
    case Class_js
    obtain s' where s': "setupRoute e ?m = Done s'" using sr(5) by blast
    have "finishPoint s' = Some p" using sr(2) s' by simp
    with Class_js assms c s' show ?thesis
      by (simp add: step_def onClick_def seq_end)
  next
    case Part_000
    with assms m show ?thesis by (simp add: step_def onClick_def seq_end)
  qed
  show "startPoint (step e v s (Click p)) = Some a"
    "finishPoint (step e v s (Click p)) = Some p"
    "issued (step e v s (Click p)) = Suc (issued s)"
    "filter is_request (calls (step e v s (Click p))) =
       filter is_request (calls s) @ [RouteRequest (issued s) a p]"
    "calls (step e v s (Click p)) =
       calls s @ [NewPlacemark Finish p, AddPlacemark Finish, ListenDragend Finish,
                  RouteRequest (issued s) a p]"
    unfolding st using sr by simp_all
qed

lemma click_later:
  assumes "working_sdk e" "startPoint s = Some a" "finishPoint s = Some b"
  shows "startPoint (step e v s (Click p)) = Some a"
    "finishPoint (step e v s (Click p)) = Some p"
    "issued (step e v s (Click p)) = Suc (issued s)"
    "filter is_request (calls (step e v s (Click p))) =
       filter is_request (calls s) @ [RouteRequest (issued s) a p]"
    "calls (step e v s (Click p)) =
       calls s @ [SetCoordinates Finish p, RouteRequest (issued s) a p]"
proof -
  let ?m = "s\<lparr>calls := calls s @ [SetCoordinates Finish p], finishPoint := Some p\<rparr>"
  have m: "setPoint e Part_000 Finish p None s = Done ?m"
    using assms
    by (simp add: setPoint_def call_working_target[where w = Finish] upd_def placemark_def
        set_placemark_def set_balloon_content_def)
  have c: "setPoint e Class_js Finish p None s = setupRoute e ?m"
    using assms
    by (simp add: setPoint_def call_working_target[where w = Finish] upd_def placemark_def
        set_placemark_def set_balloon_content_def split: result.splits)
  have sm: "startPoint ?m = Some a" "finishPoint ?m = Some p" using assms by simp_all
  note sr = setupRoute_working [OF assms(1) sm]
  have st: "step e v s (Click p) = state_of (setupRoute e ?m)"
  proof (cases v)
    case Class_js
    obtain s' where s': "setupRoute e ?m = Done s'" using sr(5) by blast
    with Class_js assms c show ?thesis
      by (simp add: step_def onClick_def seq_end)
  next
    case Part_000
    with assms m show ?thesis by (simp add: step_def onClick_def seq_end)
  qed
  show "startPoint (step e v s (Click p)) = Some a"
    "finishPoint (step e v s (Click p)) = Some p"
    "issued (step e v s (Click p)) = Suc (issued s)"
    "filter is_request (calls (step e v s (Click p))) =
       filter is_request (calls s) @ [RouteRequest (issued s) a p]"
    "calls (step e v s (Click p)) =
       calls s @ [SetCoordinates Finish p, RouteRequest (issued s) a p]"
    unfolding st using sr by simp_all
qed

lemma click_log_one:
  "click_log [a] = [NewPlacemark Start a, AddPlacemark Start, ListenDragend Start]"
  by (simp add: click_log_def)

lemma click_log_snoc:
  assumes "ps \<noteq> []"
  shows "click_log (ps @ [p]) = click_log ps @ later_click (hd ps) (length ps - 1) p"
proof -
  have n: "length (ps @ [p]) - 1 = Suc (length ps - 1)" using assms by (cases ps) simp_all
  have "Suc (length ps - 1) = length ps" using assms by (cases ps) simp_all
  then have lastp: "(ps @ [p]) ! Suc (length ps - 1) = p"
    by (simp only: nth_append_length)
  have hdp: "hd (ps @ [p]) = hd ps" using assms by simp
  have idx: "map (\<lambda>i. later_click (hd ps) i ((ps @ [p]) ! Suc i)) [0..<length ps - 1] =
             map (\<lambda>i. later_click (hd ps) i (ps ! Suc i)) [0..<length ps - 1]"
    by (rule map_cong) (auto simp: nth_append)
  have up: "[0..<Suc (length ps - 1)] = [0..<length ps - 1] @ [length ps - 1]" by simp
  have "concat (map (\<lambda>i. later_click (hd (ps @ [p])) i ((ps @ [p]) ! Suc i))
            [0..<length (ps @ [p]) - 1]) =
        concat (map (\<lambda>i. later_click (hd ps) i (ps ! Suc i)) [0..<length ps - 1]) @
        later_click (hd ps) (length ps - 1) p"
    by (simp only: n up map_append hdp idx list.map lastp concat_append concat.simps append_Nil2)
  then show ?thesis using assms by (simp add: click_log_def)
qed

lemma after_clicks_run:
  assumes "working_sdk e"
  shows "after_clicks ps (run e v (map Click ps) (init page))"
proof (induction ps rule: rev_induct)
  case Nil
  show ?case by (simp add: after_clicks_def run_def init_def click_log_def)
next
  case (snoc p ps)
  let ?s = "run e v (map Click ps) (init page)"
  have r: "run e v (map Click (ps @ [p])) (init page) = step e v ?s (Click p)"
    by (simp add: run_def)
  from snoc have ac: "startPoint ?s = (if ps = [] then None else Some (hd ps))"
    "finishPoint ?s = (if length ps < 2 then None else Some (last ps))"
    "issued ?s = length ps - 1"
    "filter is_request (calls ?s) =
       map (\<lambda>i. RouteRequest i (hd ps) (ps ! Suc i)) [0..<length ps - 1]"
    "calls ?s = click_log ps"
    unfolding after_clicks_def by blast+
  show ?case
  proof (cases ps)
    case Nil
    have "startPoint ?s = None" "finishPoint ?s = None" "issued ?s = 0"
      "filter is_request (calls ?s) = []" "calls ?s = []"
      using ac(1) Nil apply simp
      using ac(2) Nil apply simp
      using ac(3) Nil apply simp
      using ac(4) Nil apply simp
      using ac(5) Nil apply (simp add: click_log_def)
      done
    with click_first [OF assms, of ?s v p] Nil show ?thesis
      unfolding r by (simp add: after_clicks_def click_log_one)
  next
    case (Cons a qs)
    then have ne: "ps \<noteq> []" and hd: "hd ps = a" by simp_all
    note log = click_log_snoc [OF ne, of p, unfolded hd]
    show ?thesis
    proof (cases qs)
      case Nil
      have s: "startPoint ?s = Some a" "finishPoint ?s = None" "issued ?s = 0"
        "filter is_request (calls ?s) = []" "calls ?s = click_log ps"
        using ac(1) Cons Nil apply simp
        using ac(2) Cons Nil apply simp
        using ac(3) Cons Nil apply simp
        using ac(4) Cons Nil apply simp
        using ac(5) apply simp
        done
      have l: "length ps - 1 = 0" using Cons Nil by simp
      from click_second [OF assms s(1,2), of v p] s(3,4,5) Cons Nil log show ?thesis
        unfolding r by (simp add: after_clicks_def later_click_def)
    next
      case (Cons b rs)
      have s: "startPoint ?s = Some a" "finishPoint ?s = Some (last ps)"
        "issued ?s = length ps - 1"
        "filter is_request (calls ?s) =
           map (\<lambda>i. RouteRequest i a (ps ! Suc i)) [0..<length ps - 1]"
        "calls ?s = click_log ps"
        using ac(1) \<open>ps = a # qs\<close> apply simp
        using ac(2) \<open>ps = a # qs\<close> Cons apply simp
        using ac(3) apply simp
        using ac(4) hd apply simp
        using ac(5) apply simp
        done
      have n: "length (ps @ [p]) - 1 = Suc (length ps - 1)" using ne by (cases ps) simp_all
      have idx: "map (\<lambda>i. RouteRequest i a ((ps @ [p]) ! Suc i)) [0..<length ps - 1] =
                 map (\<lambda>i. RouteRequest i a (ps ! Suc i)) [0..<length ps - 1]"
        by (rule map_cong) (auto simp: nth_append)
      have "Suc (length ps - 1) = length ps" using ne by (cases ps) simp_all
      then have lastp: "(ps @ [p]) ! Suc (length ps - 1) = p"
        by (simp only: nth_append_length)
      have hdp: "hd (ps @ [p]) = a" using \<open>ps = a # qs\<close> by simp
      have up: "[0..<Suc (length ps - 1)] = [0..<length ps - 1] @ [length ps - 1]" by simp
      have reqs: "map (\<lambda>i. RouteRequest i (hd (ps @ [p])) ((ps @ [p]) ! Suc i))
            [0..<length (ps @ [p]) - 1] =
          map (\<lambda>i. RouteRequest i a (ps ! Suc i)) [0..<length ps - 1] @
          [RouteRequest (length ps - 1) a p]"
        by (simp only: n up map_append hdp idx list.map lastp)
      have pos: "length ps - 1 \<noteq> 0" using \<open>ps = a # qs\<close> Cons by simp
      note cl = click_later [OF assms s(1,2), of v p]
      have "startPoint (step e v ?s (Click p)) = Some (hd (ps @ [p]))"
        using cl(1) hdp by simp
      moreover have "finishPoint (step e v ?s (Click p)) = Some (last (ps @ [p]))"
        using cl(2) by simp
      moreover have "issued (step e v ?s (Click p)) = length (ps @ [p]) - 1"
        using cl(3) s(3) n by simp
      moreover have "filter is_request (calls (step e v ?s (Click p))) =
          map (\<lambda>i. RouteRequest i (hd (ps @ [p])) ((ps @ [p]) ! Suc i))
            [0..<length (ps @ [p]) - 1]"
        unfolding reqs cl(4) s(3) s(4) ..
      moreover have "calls (step e v ?s (Click p)) = click_log (ps @ [p])"
        unfolding cl(5) s(3) s(5) log using pos by (simp add: later_click_def)
      moreover have "\<not> length (ps @ [p]) < 2" "ps @ [p] \<noteq> []" using ne by (cases ps; simp)+
      ultimately show ?thesis
        unfolding r after_clicks_def by (simp only: if_False simp_thms)
    qed
  qed
qed

text \<open>
  C8. With an SDK that carries out its calls, after any sequence of clicks on a new
  calculator the start point is where the first click was, the finish point is where the
  last of two or more clicks was, and every click from the second on has sent one route
  request from the start point to the clicked position. The calls made are exactly these:
  the first click creates the start placemark, the second creates the finish placemark,
  every later one moves the existing finish placemark to the clicked position, and each
  click from the second on is followed by its route request; nothing moves the start
  placemark. Both copies.
\<close>

theorem clicks_place_points_and_request_routes:
  assumes "working_sdk e"
  shows "startPoint (run e v (map Click ps) (init page)) =
           (if ps = [] then None else Some (hd ps)) \<and>
         finishPoint (run e v (map Click ps) (init page)) =
           (if length ps < 2 then None else Some (last ps)) \<and>
         filter is_request (calls (run e v (map Click ps) (init page))) =
           map (\<lambda>i. RouteRequest i (hd ps) (ps ! Suc i)) [0..<length ps - 1] \<and>
         calls (run e v (map Click ps) (init page)) = click_log ps"
  using after_clicks_run [OF assms, of ps v page] unfolding after_clicks_def by blast

theorem clicks_place_points_and_request_routes_witness:
  "working_sdk good_env \<and>
   startPoint (run good_env Class_js (map Click [(1, 1), (2, 2), (3, 3)]) (init full_page)) =
     Some (1, 1) \<and>
   finishPoint (run good_env Class_js (map Click [(1, 1), (2, 2), (3, 3)]) (init full_page)) =
     Some (3, 3) \<and>
   filter is_request
     (calls (run good_env Class_js (map Click [(1, 1), (2, 2), (3, 3)]) (init full_page))) =
     [RouteRequest 0 (1, 1) (2, 2), RouteRequest 1 (1, 1) (3, 3)] \<and>
   calls (run good_env Class_js (map Click [(1, 1), (2, 2), (3, 3)]) (init full_page)) =
     [NewPlacemark Start (1, 1), AddPlacemark Start, ListenDragend Start,
      NewPlacemark Finish (2, 2), AddPlacemark Finish, ListenDragend Finish,
      RouteRequest 0 (1, 1) (2, 2),
      SetCoordinates Finish (3, 3), RouteRequest 1 (1, 1) (3, 3)]"
proof -
  have h: "working_sdk good_env" by (simp add: working_sdk_def good_env_def)
  have m: "map (\<lambda>i. RouteRequest i (hd [(1, 1), (2, 2), (3, 3)]) ([(1, 1), (2, 2), (3, 3)] ! Suc i))
             [0..<length [(1::rat, 1::rat), (2, 2), (3, 3)] - 1] =
           [RouteRequest 0 (1, 1) (2, 2), RouteRequest 1 (1, 1) (3, 3)]"
    by code_simp
  have l: "click_log [(1, 1), (2, 2), (3, 3)] =
     [NewPlacemark Start (1, 1), AddPlacemark Start, ListenDragend Start,
      NewPlacemark Finish (2, 2), AddPlacemark Finish, ListenDragend Finish,
      RouteRequest 0 (1, 1) (2, 2),
      SetCoordinates Finish (3, 3), RouteRequest 1 (1, 1) (3, 3)]"
    by code_simp
  from clicks_place_points_and_request_routes [OF h, of Class_js "[(1, 1), (2, 2), (3, 3)]" full_page]
  show ?thesis
    unfolding m l using h by simp
qed

section \<open>Requests wait for both points\<close>

lemma preservesD: "preserves P f \<Longrightarrow> P s \<Longrightarrow> P (state_of (f s))"
  by (simp add: preserves_def)

lemma preserves_seq: "list_all (preserves P) fs \<Longrightarrow> preserves P (seq fs)"
proof (induction fs)
  case Nil
  show ?case by (simp add: preserves_def)
next
  case (Cons f fs)
  have f: "preserves P f" and fs: "preserves P (seq fs)" using Cons by simp_all
  show ?case
    unfolding preserves_def
  proof (intro allI impI)
    fix s assume "P s"
    then have "P (state_of (f s))" using f by (rule preservesD[rotated])
    then show "P (state_of (seq (f # fs) s))"
      using fs by (cases "f s") (simp_all add: preserves_def)
  qed
qed

lemma preserves_try: "preserves P f \<Longrightarrow> preserves P (try_catch f)"
  by (simp add: preserves_def try_catch_def)

lemma steady_quiet: "steady P \<Longrightarrow> quiet g \<Longrightarrow> preserves P (upd g)"
  by (simp add: steady_def preserves_def upd_def)

lemma steady_call:
  assumes "steady P"
  shows "preserves P (call e c)"
proof -
  have q: "quiet (\<lambda>s. s\<lparr>calls := calls s @ [c]\<rparr>)" by (simp add: quiet_def)
  have "P (s\<lparr>calls := calls s @ [c]\<rparr>)" if "P s" for s
    using assms q that unfolding steady_def by blast
  then show ?thesis by (simp add: preserves_def call_def)
qed

lemma steady_set_placemark: "steady P \<Longrightarrow> preserves P (upd (set_placemark w p))"
  unfolding steady_def preserves_def upd_def state_of.simps by blast

lemma quiet_set_balloon_content: "quiet (set_balloon_content w b)"
  by (cases w; cases b) (simp_all add: quiet_def set_balloon_content_def)

lemma quiet_fields:
  "quiet (\<lambda>s. s\<lparr>route := x\<rparr>)" "quiet (\<lambda>s. s\<lparr>router := y\<rparr>)"
  "quiet (\<lambda>s. s\<lparr>panel := f (panel s)\<rparr>)"
  by (simp_all add: quiet_def)

lemma steady_place:
  assumes "steady P"
  shows "preserves P
     (\<lambda>s. case placemark w s of
             None \<Rightarrow>
               seq [call e (NewPlacemark w p), call e (AddPlacemark w), call e (ListenDragend w),
                    upd (set_placemark w p)] s
           | Some _ \<Rightarrow> seq [call e (SetCoordinates w p), upd (set_placemark w p)] s)"
proof -
  have a: "preserves P
      (seq [call e (NewPlacemark w p), call e (AddPlacemark w), call e (ListenDragend w),
            upd (set_placemark w p)])"
    by (rule preserves_seq) (simp add: steady_call[OF assms] steady_set_placemark[OF assms])
  have b: "preserves P (seq [call e (SetCoordinates w p), upd (set_placemark w p)])"
    by (rule preserves_seq) (simp add: steady_call[OF assms] steady_set_placemark[OF assms])
  show ?thesis
    unfolding preserves_def
  proof (intro allI impI)
    fix s assume "P s"
    then show "P (state_of (case placemark w s of
             None \<Rightarrow>
               seq [call e (NewPlacemark w p), call e (AddPlacemark w), call e (ListenDragend w),
                    upd (set_placemark w p)] s
           | Some _ \<Rightarrow> seq [call e (SetCoordinates w p), upd (set_placemark w p)] s))"
      using preservesD[OF a] preservesD[OF b] by (cases "placemark w s") simp_all
  qed
qed

lemma preserves_maybe:
  "preserves P f \<Longrightarrow> preserves P (\<lambda>s. if b s then f s else Done s)"
  by (simp add: preserves_def)

lemma steady_setPoint:
  assumes "steady P" "preserves P (setupRoute e)"
  shows "preserves P (setPoint e v w p b)"
  unfolding setPoint_def
  by (rule preserves_seq)
     (simp add: steady_place[OF assms(1)] steady_quiet[OF assms(1) quiet_set_balloon_content]
        preserves_maybe[OF assms(2)])

lemma steady_setRoute:
  assumes "steady P" "preserves P (setupRoute e)"
  shows "preserves P (setRoute e v a b)"
  unfolding setRoute_def
  by (rule preserves_seq) (simp add: steady_setPoint[OF assms] preserves_maybe[OF assms(2)])

lemma steady_onClick:
  assumes "steady P" "preserves P (setupRoute e)"
  shows "preserves P (onClick e v p)"
proof -
  have "preserves P
     (\<lambda>s. if startPoint s = None then setPoint e v Start p None s
           else if finishPoint s = None then setPoint e v Finish p None s
           else setPoint e v Finish p None s)"
    using steady_setPoint[OF assms, of v Start p None] steady_setPoint[OF assms, of v Finish p None]
    by (simp add: preserves_def)
  then show ?thesis
    unfolding onClick_def
    by - (rule preserves_seq, simp add: preserves_maybe[OF assms(2)])
qed

lemma steady_clear:
  assumes "steady P"
  shows "preserves P
     (\<lambda>s. case route s of
             Some old \<Rightarrow> seq [try_catch (call e (RemoveRoute old)), upd (\<lambda>s. s\<lparr>route := None\<rparr>)] s
           | None \<Rightarrow> Done s)"
proof -
  have a: "preserves P
      (seq [try_catch (call e (RemoveRoute old)), upd (\<lambda>s. s\<lparr>route := None\<rparr>)])" for old
    by (rule preserves_seq)
       (simp add: steady_call[OF assms] preserves_try steady_quiet[OF assms quiet_fields(1)])
  show ?thesis
    unfolding preserves_def
  proof (intro allI impI)
    fix s assume "P s"
    then show "P (state_of (case route s of
             Some old \<Rightarrow> seq [try_catch (call e (RemoveRoute old)), upd (\<lambda>s. s\<lparr>route := None\<rparr>)] s
           | None \<Rightarrow> Done s))"
      using preservesD[OF a] by (cases "route s") simp_all
  qed
qed

lemma steady_pair:
  assumes "steady P"
  shows "preserves P (try_catch (seq [call e x, call e y]))"
  by (rule preserves_try, rule preserves_seq) (simp add: steady_call[OF assms])

lemma steady_single:
  assumes "steady P"
  shows "preserves P (try_catch (call e x))"
  by (rule preserves_try) (rule steady_call[OF assms])

lemma steady_chained:
  assumes "steady P"
  shows "preserves P (chained_autoPan e)"
  using steady_single[OF assms, of e "AutoPan Finish"]
  by (simp add: preserves_def chained_autoPan_def)

lemma preserves_with_text:
  assumes "\<And>t. preserves P (f t)"
  shows "preserves P (with_text x f)"
  using assms by (cases x) (simp_all add: preserves_def with_text_def)

lemma steady_route_found_class:
  assumes "steady P" "preserves P (upd (resolve d))"
  shows "preserves P (route_found_class e (d, sb, fb) r)"
  unfolding preserves_def
proof (intro allI impI)
  fix s assume p: "P s"
  show "P (state_of (route_found_class e (d, sb, fb) r s))"
  proof (cases "deferreds s d = Some Rejected")
    case True
    with p show ?thesis by (simp add: route_found_class_def)
  next
    case False
    show ?thesis
      unfolding route_found_class_def prod.case Let_def if_not_P[OF False]
      by (rule preservesD[OF preserves_seq[where P = P] p])
         (simp add: steady_clear[OF assms(1)] steady_quiet[OF assms(1) quiet_fields(1)]
            steady_quiet[OF assms(1) quiet_fields(2)] steady_quiet[OF assms(1) quiet_fields(3)]
            steady_call[OF assms(1)] steady_pair[OF assms(1)] steady_single[OF assms(1)]
            steady_chained[OF assms(1)] preserves_with_text assms(2))
  qed
qed

lemma steady_clearRoute:
  assumes "steady P"
  shows "preserves P (clearRoute e)"
  unfolding clearRoute_def
  by (rule preserves_seq)
     (simp add: steady_clear[OF assms] steady_quiet[OF assms quiet_fields(2)])

lemma steady_route_found_part:
  assumes "steady P" "preserves P (upd (resolve d))"
  shows "preserves P (route_found_part e (d, sb, fb) r)"
  unfolding preserves_def
proof (intro allI impI)
  fix s assume p: "P s"
  show "P (state_of (route_found_part e (d, sb, fb) r s))"
  proof (cases "deferreds s d = Some Rejected")
    case True
    with p show ?thesis by (simp add: route_found_part_def)
  next
    case False
    show ?thesis
      unfolding route_found_part_def prod.case Let_def if_not_P[OF False]
      by (rule preservesD[OF preserves_seq[where P = P] p])
         (simp add: steady_clearRoute[OF assms(1)] steady_quiet[OF assms(1) quiet_fields(1)]
            steady_quiet[OF assms(1) quiet_fields(2)] steady_quiet[OF assms(1) quiet_fields(3)]
            steady_call[OF assms(1)] steady_pair[OF assms(1)] steady_single[OF assms(1)]
            steady_chained[OF assms(1)] assms(2))
  qed
qed

lemma steady_route_found:
  assumes "steady P" "preserves P (upd (resolve d))"
  shows "preserves P (route_found e v (d, sb, fb) r)"
  using steady_route_found_class[OF assms] steady_route_found_part[OF assms]
  by (cases v) (simp_all add: route_found_def)

lemma steady_route_failed:
  assumes "steady P"
  shows "preserves P (route_failed e)"
  unfolding route_failed_def
  by (rule preserves_try, rule preserves_seq) (simp add: steady_call[OF assms])

text \<open>Every event but the arrival of a router.\<close>

lemma steady_handle:
  assumes "steady P" "preserves P (setupRoute e)" "\<And>n. preserves P (upd (answered n))"
    and "\<And>n r. ev \<noteq> RouteOk n r"
  shows "preserves P (handle e v ev)"
proof (cases ev)
  case (Click p)
  then show ?thesis using steady_onClick[OF assms(1,2), of v p] by (simp add: preserves_def)
next
  case (DragEnd w p)
  have a: "preserves P (seq [upd (set_placemark w p), setupRoute e])"
    by (rule preserves_seq) (simp add: steady_set_placemark[OF assms(1)] assms(2))
  show ?thesis
    unfolding preserves_def DragEnd
  proof (intro allI impI)
    fix s assume "P s"
    then show "P (state_of (handle e v (DragEnd w p) s))"
      using preservesD[OF a] by (cases "placemark w s") simp_all
  qed
next
  case (SetPoint w p b)
  then show ?thesis using steady_setPoint[OF assms(1,2), of v w p b] by (simp add: preserves_def)
next
  case (SetRoute a b)
  then show ?thesis using steady_setRoute[OF assms(1,2), of v a b] by (simp add: preserves_def)
next
  case (RouteOk n r)
  with assms(4) show ?thesis by blast
next
  case (RouteFail n)
  have a: "preserves P (try_catch (seq [upd (answered n), route_failed e]))"
    by (rule preserves_try, rule preserves_seq)
       (simp add: assms(3) steady_route_failed[OF assms(1)])
  show ?thesis
    unfolding preserves_def RouteFail
  proof (intro allI impI)
    fix s assume "P s"
    then show "P (state_of (handle e v (RouteFail n) s))"
      using preservesD[OF a] by (cases "captured_by n s") simp_all
  qed
qed


lemma steady_rwp: "steady requested_with_points"
proof -
  have "requested_with_points (set_placemark w p s)" if "requested_with_points s" for w p s
    using that by (cases w) (auto simp: requested_with_points_def points_set_def set_placemark_def)
  then show ?thesis
    unfolding steady_def by (auto simp: quiet_def requested_with_points_def points_set_def)
qed

lemma sr_fields:
  assumes "requests t = requests s" "deferred t = deferred s" "deferreds t = deferreds s"
    "issued t = issued s"
  shows "superseded_rejected t = superseded_rejected s"
  using assms by (simp add: superseded_rejected_def)

lemma steady_sr: "steady superseded_rejected"
proof -
  have a: "superseded_rejected (g s)" if "quiet g" "superseded_rejected s" for g s
    using sr_fields[of "g s" s] that by (simp add: quiet_def)
  have b: "superseded_rejected (set_placemark w p s)" if "superseded_rejected s" for w p s
    using sr_fields[of "set_placemark w p s" s] that by (cases w) (simp_all add: set_placemark_def)
  show ?thesis unfolding steady_def using a b by blast
qed

lemma steady_other: "steady (other_requests d)"
proof -
  have a: "other_requests d (g s)" if "quiet g" "other_requests d s" for g s
    using sr_fields[of "g s" s] that by (simp add: quiet_def other_requests_def)
  have b: "other_requests d (set_placemark w p s)" if "other_requests d s" for w p s
    using sr_fields[of "set_placemark w p s" s] that
    by (cases w) (simp_all add: set_placemark_def other_requests_def)
  show ?thesis unfolding steady_def using a b by blast
qed

lemma setupRoute_points:
  assumes "startPoint s = Some a" "finishPoint s = Some b"
  shows "points_set (state_of (setupRoute e s))"
proof -
  have call: "points_set (state_of (call e c t)) = points_set t" for c t
    by (simp add: call_def points_set_def)
  have u: "points_set (new_deferred (reject_pending s))"
    using assms by (simp add: points_set_def new_deferred_def reject_pending_def split: option.splits)
  show ?thesis
    using assms u call[of "RouteRequest (issued s) a b" "new_deferred (reject_pending s)"]
    by (cases "call e (RouteRequest (issued s) a b) (new_deferred (reject_pending s))")
       (simp_all add: setupRoute_def upd_def Let_def points_set_def)
qed

lemma rwp_setupRoute: "preserves requested_with_points (setupRoute e)"
  unfolding preserves_def
proof (intro allI impI)
  fix s assume p: "requested_with_points s"
  show "requested_with_points (state_of (setupRoute e s))"
  proof (cases "startPoint s")
    case None
    with p show ?thesis by (simp add: setupRoute_def)
  next
    case (Some a)
    note a = Some
    show ?thesis
    proof (cases "finishPoint s")
      case None
      with p a show ?thesis by (simp add: setupRoute_def)
    next
      case (Some b)
      from setupRoute_points [OF a Some] show ?thesis by (simp add: requested_with_points_def)
    qed
  qed
qed

lemma rwp_answered: "preserves requested_with_points (upd (answered n))"
  by (simp add: preserves_def upd_def requested_with_points_def points_set_def answered_def)

lemma rwp_resolve: "preserves requested_with_points (upd (resolve d))"
  by (simp add: preserves_def upd_def requested_with_points_def points_set_def resolve_def)

lemma rwp_handle: "preserves requested_with_points (handle e v ev)"
proof (cases "\<exists>n r. ev = RouteOk n r")
  case False
  then show ?thesis
    by (intro steady_handle steady_rwp rwp_setupRoute rwp_answered) blast
next
  case True
  then obtain n r where ev: "ev = RouteOk n r" by blast
  have a: "preserves requested_with_points
      (try_catch (seq [upd (answered n), route_found e v c r]))" for c
    by (cases c, rule preserves_try, rule preserves_seq)
       (simp add: rwp_answered steady_route_found[OF steady_rwp rwp_resolve])
  show ?thesis
    unfolding preserves_def ev
  proof (intro allI impI)
    fix s assume "requested_with_points s"
    then show "requested_with_points (state_of (handle e v (RouteOk n r) s))"
      using preservesD[OF a] by (cases "captured_by n s") simp_all
  qed
qed

lemma preserves_run:
  assumes "\<And>ev. preserves P (handle e v ev)" and "P s"
  shows "P (run e v evs s)"
  using assms(2)
proof (induction evs arbitrary: s)
  case Nil
  then show ?case by (simp add: run_def)
next
  case (Cons ev evs)
  have "P (step e v s ev)"
    using preservesD[OF assms(1) Cons.prems] by (simp add: step_def)
  from Cons.IH[OF this] show ?case by (simp add: run_def)
qed

lemma rwp_init: "requested_with_points (init page)"
  by (simp add: requested_with_points_def init_def)

lemma captured_requests: "captured_by n s = Some c \<Longrightarrow> requests s \<noteq> []"
  by (auto simp: captured_by_def)

lemma route_failed_shown:
  assumes "finishPoint s \<noteq> None"
  shows "route_failed e s = Done (s\<lparr>calls := calls s @ failure_calls e\<rparr>)"
proof -
  have p: "placemark Finish t \<noteq> None" if "finishPoint t = finishPoint s" for t
    using assms that by (simp add: placemark_def)
  show ?thesis
    by (cases "sdk e (SetBalloonBody Finish cant_build)"; cases "sdk e (OpenBalloon Finish)";
        cases "sdk e (AutoPan Finish)")
       (simp_all add: route_failed_def try_catch_def call_def p failure_calls_def)
qed

section \<open>The failure of a route request\<close>

text \<open>
  C2. In every state that events can lead to, when the provider reports the failure of an
  outstanding request (the live one among them), the failure callback ends without an
  exception and changes nothing but the log of calls: it sets the balloon body of the
  finish point to the fixed message, opens the balloon and pans to it, as far as the SDK
  carries the calls out. The panel keeps its texts, and no request goes to the provider.
\<close>

theorem failure_shows_balloon_only:
  assumes "s = run e v evs (init page)" and "captured_by n s = Some c"
  shows "route_failed e (answered n s) =
           Done ((answered n s)\<lparr>calls := calls s @ failure_calls e\<rparr>) \<and>
         handle e v (RouteFail n) s =
           Done ((answered n s)\<lparr>calls := calls s @ failure_calls e\<rparr>) \<and>
         panel (step e v s (RouteFail n)) = panel s \<and>
         requests (step e v s (RouteFail n)) = filter (\<lambda>c. fst c \<noteq> n) (requests s) \<and>
         issued (step e v s (RouteFail n)) = issued s \<and>
         filter is_request (failure_calls e) = [] \<and>
         (sdk e (SetBalloonBody Finish cant_build) \<and> sdk e (OpenBalloon Finish) \<longrightarrow>
            take 2 (failure_calls e) = [SetBalloonBody Finish cant_build, OpenBalloon Finish])"
proof -
  have "requested_with_points s"
    unfolding assms(1) by (rule preserves_run [OF rwp_handle rwp_init])
  with captured_requests [OF assms(2)] have f: "finishPoint (answered n s) \<noteq> None"
    by (simp add: requested_with_points_def points_set_def answered_def)
  have c: "calls (answered n s) = calls s" by (simp add: answered_def)
  note rf = route_failed_shown [OF f, of e, unfolded c]
  have h: "handle e v (RouteFail n) s =
      Done ((answered n s)\<lparr>calls := calls s @ failure_calls e\<rparr>)"
    using assms(2) rf by (simp add: try_catch_def upd_def)
  have nr: "filter is_request (failure_calls e) = []"
    by (simp add: failure_calls_def)
  have tk: "take 2 (failure_calls e) = [SetBalloonBody Finish cant_build, OpenBalloon Finish]"
    if "sdk e (SetBalloonBody Finish cant_build)" "sdk e (OpenBalloon Finish)"
    using that by (simp add: failure_calls_def)
  show ?thesis
    using rf h nr tk by (simp add: step_def answered_def)
qed

theorem failure_shows_balloon_only_witness:
  "captured_by 1 (run good_env Class_js three_clicks (init full_page)) = Some (1, [], []) \<and>
   deferred (run good_env Class_js three_clicks (init full_page)) = Some 1 \<and>
   sdk good_env (SetBalloonBody Finish cant_build) \<and> sdk good_env (OpenBalloon Finish) \<and>
   calls (step good_env Class_js (run good_env Class_js three_clicks (init full_page)) (RouteFail 1)) =
     calls (run good_env Class_js three_clicks (init full_page)) @
     [SetBalloonBody Finish cant_build, OpenBalloon Finish, AutoPan Finish] \<and>
   panel (step good_env Class_js (run good_env Class_js three_clicks (init full_page)) (RouteFail 1)) =
     full_page"
proof -
  let ?s = "run good_env Class_js three_clicks (init full_page)"
  have h: "captured_by 1 ?s = Some (1, [], [])" by code_simp
  have d: "deferred ?s = Some 1" by code_simp
  have p: "panel ?s = full_page" by code_simp
  have fc: "failure_calls good_env =
      [SetBalloonBody Finish cant_build, OpenBalloon Finish, AutoPan Finish]"
    by (simp add: failure_calls_def good_env_def)
  from failure_shows_balloon_only [OF refl h]
  have hd: "handle good_env Class_js (RouteFail 1) ?s =
      Done ((answered 1 ?s)\<lparr>calls := calls ?s @ failure_calls good_env\<rparr>)"
    and pn: "panel (step good_env Class_js ?s (RouteFail 1)) = panel ?s"
    by blast+
  have "calls (step good_env Class_js ?s (RouteFail 1)) = calls ?s @ failure_calls good_env"
    unfolding step_def hd by simp
  then have cs: "calls (step good_env Class_js ?s (RouteFail 1)) =
      calls ?s @ [SetBalloonBody Finish cant_build, OpenBalloon Finish, AutoPan Finish]"
    unfolding fc .
  have ok: "sdk good_env (SetBalloonBody Finish cant_build)" "sdk good_env (OpenBalloon Finish)"
    by (simp_all add: good_env_def)
  show ?thesis
    using h d pn[unfolded p] cs ok by blast
qed

section \<open>Superseded requests\<close>

lemma sr_reject_pending:
  assumes "superseded_rejected s"
  shows "superseded_rejected (reject_pending s)"
    and "\<forall>c \<in> set (requests (reject_pending s)).
           deferreds (reject_pending s) (fst c) = Some Rejected"
    and "issued (reject_pending s) = issued s" "requests (reject_pending s) = requests s"
proof -
  show "issued (reject_pending s) = issued s" "requests (reject_pending s) = requests s"
    by (simp_all add: reject_pending_def split: option.splits)
  show "superseded_rejected (reject_pending s)"
    using assms
    by (cases "deferred s") (auto simp: reject_pending_def superseded_rejected_def)
  show "\<forall>c \<in> set (requests (reject_pending s)).
           deferreds (reject_pending s) (fst c) = Some Rejected"
    using assms
    by (cases "deferred s") (auto simp: reject_pending_def superseded_rejected_def)
qed

lemma sr_new_deferred:
  assumes "superseded_rejected s" "\<forall>c \<in> set (requests s). deferreds s (fst c) = Some Rejected"
  shows "superseded_rejected (new_deferred s)"
    and "superseded_rejected
           ((new_deferred s)\<lparr>requests := requests (new_deferred s) @ [(issued s, x, y)]\<rparr>)"
proof -
  have lt: "fst c < issued s" if "c \<in> set (requests s)" for c
    using assms(1) that by (simp add: superseded_rejected_def)
  then have ne: "fst c \<noteq> issued s" if "c \<in> set (requests s)" for c
    using that by fastforce
  show "superseded_rejected (new_deferred s)"
    unfolding superseded_rejected_def new_deferred_def
    using assms(2) lt ne by (auto simp: less_Suc_eq)
  show "superseded_rejected
           ((new_deferred s)\<lparr>requests := requests (new_deferred s) @ [(issued s, x, y)]\<rparr>)"
    unfolding superseded_rejected_def new_deferred_def
    using assms(2) lt ne by (auto simp: less_Suc_eq)
qed

lemma sr_setupRoute: "preserves superseded_rejected (setupRoute e)"
  unfolding preserves_def
proof (intro allI impI)
  fix s assume p: "superseded_rejected s"
  show "superseded_rejected (state_of (setupRoute e s))"
  proof (cases "startPoint s")
    case None
    with p show ?thesis by (simp add: setupRoute_def)
  next
    case (Some a)
    note a = Some
    show ?thesis
    proof (cases "finishPoint s")
      case None
      with p a show ?thesis by (simp add: setupRoute_def)
    next
      case (Some b)
      let ?t = "reject_pending s"
      let ?u = "new_deferred ?t"
      note rp = sr_reject_pending [OF p]
      note nd = sr_new_deferred [OF rp(1) rp(2)]
      have i: "issued ?t = issued s" by (rule rp(3))
      show ?thesis
      proof (cases "sdk e (RouteRequest (issued s) a b)")
        case False
        then have "state_of (setupRoute e s) = ?u"
          using a Some by (simp add: setupRoute_def upd_def call_def Let_def)
        with nd(1) show ?thesis by simp
      next
        case True
        let ?w = "?u\<lparr>calls := calls ?u @ [RouteRequest (issued s) a b]\<rparr>"
        have st: "state_of (setupRoute e s) =
            ?w\<lparr>requests := requests ?w @
              [(issued s, startPointBalloonContent s, finishPointBalloonContent s)]\<rparr>"
          using a Some True by (simp add: setupRoute_def upd_def call_def Let_def)
        have "superseded_rejected
            (?u\<lparr>requests := requests ?u @
              [(issued s, startPointBalloonContent s, finishPointBalloonContent s)]\<rparr>)"
          using nd(2)[of "startPointBalloonContent s" "finishPointBalloonContent s"]
          unfolding i .
        moreover have "superseded_rejected
            (?w\<lparr>requests := requests ?w @
              [(issued s, startPointBalloonContent s, finishPointBalloonContent s)]\<rparr>) =
          superseded_rejected
            (?u\<lparr>requests := requests ?u @
              [(issued s, startPointBalloonContent s, finishPointBalloonContent s)]\<rparr>)"
          by (rule sr_fields) simp_all
        ultimately show ?thesis unfolding st by simp
      qed
    qed
  qed
qed

lemma sr_answered: "preserves superseded_rejected (upd (answered n))"
  by (auto simp: preserves_def upd_def superseded_rejected_def answered_def)

lemma other_answered: "superseded_rejected s \<Longrightarrow> other_requests n (answered n s)"
  using preservesD[OF sr_answered, of s n]
  by (auto simp: other_requests_def upd_def answered_def)

lemma other_resolve: "preserves (other_requests d) (upd (resolve d))"
  unfolding preserves_def upd_def state_of.simps
proof (intro allI impI)
  fix s assume a: "other_requests d s"
  show "other_requests d (resolve d s)"
  proof (cases "deferreds s d = Some Pending")
    case False
    with a show ?thesis by (simp add: resolve_def)
  next
    case True
    have ne: "fst c \<noteq> d" if "c \<in> set (requests s)" for c
      using a that by (auto simp: other_requests_def)
    have "superseded_rejected (s\<lparr>deferreds := (deferreds s)(d \<mapsto> Fulfilled)\<rparr>)"
      using a ne by (simp add: other_requests_def superseded_rejected_def)
    with a True show ?thesis by (simp add: resolve_def other_requests_def)
  qed
qed

lemma captured_fst: "captured_by n s = Some c \<Longrightarrow> fst c = n \<and> c \<in> set (requests s)"
  unfolding captured_by_def by (auto simp: find_Some_iff)

lemma sr_handle: "preserves superseded_rejected (handle e v ev)"
proof (cases "\<exists>n r. ev = RouteOk n r")
  case False
  then show ?thesis
    by (intro steady_handle steady_sr sr_setupRoute sr_answered) blast
next
  case True
  then obtain n r where ev: "ev = RouteOk n r" by blast
  show ?thesis
    unfolding preserves_def ev
  proof (intro allI impI)
    fix s assume p: "superseded_rejected s"
    show "superseded_rejected (state_of (handle e v (RouteOk n r) s))"
    proof (cases "captured_by n s")
      case None
      with p show ?thesis by simp
    next
      case (Some c)
      obtain sb fb where c: "c = (n, sb, fb)" using captured_fst[OF Some] by (cases c) simp
      have "other_requests n (state_of (route_found e v (n, sb, fb) r (answered n s)))"
        by (rule preservesD[OF steady_route_found[OF steady_other other_resolve]
              other_answered[OF p]])
      then have "superseded_rejected (state_of (route_found e v (n, sb, fb) r (answered n s)))"
        by (simp add: other_requests_def)
      then show ?thesis
        using Some c
        by (cases "route_found e v (n, sb, fb) r (answered n s)")
           (simp_all add: try_catch_def upd_def)
    qed
  qed
qed

lemma sr_init: "superseded_rejected (init page)"
  by (simp add: superseded_rejected_def init_def)

text \<open>
  The success callback is guarded: in every state that events can lead to, a router
  arriving for an outstanding request that is not the current one changes nothing, since
  the deferred of such a request is rejected.
\<close>

lemma superseded_success_is_silent:
  assumes "s = run e v evs (init page)" and "captured_by n s = Some c"
    and "deferred s \<noteq> Some n"
  shows "handle e v (RouteOk n r) s = Done (answered n s)"
proof -
  have sr: "superseded_rejected s"
    unfolding assms(1) by (rule preserves_run [OF sr_handle sr_init])
  obtain sb fb where c: "c = (n, sb, fb)" using captured_fst[OF assms(2)] by (cases c) simp
  have "deferreds s n = Some Rejected"
    using sr captured_fst[OF assms(2)] assms(3) by (auto simp: superseded_rejected_def)
  then have "deferreds (answered n s) n = Some Rejected" by (simp add: answered_def)
  then have "route_found e v (n, sb, fb) r (answered n s) = Done (answered n s)"
    by (cases v) (simp_all add: route_found_def route_found_class_def route_found_part_def)
  then show ?thesis
    using assms(2) c by (simp add: try_catch_def upd_def)
qed

text \<open>
  C1. The completion of a superseded request should reach neither balloon nor panel nor
  map. In both copies the failure callback does not look at the deferred: after three
  clicks the request of the second click is superseded and its deferred rejected; the
  provider finds the route of the third click, which is drawn; when the provider then
  reports the failure of the superseded request, the balloon of the finish point is set
  to the failure message and opened.
\<close>

theorem superseded_failure_reaches_balloon:
  "deferreds (superseded_run Class_js) 0 = Some Rejected \<and>
   deferred (superseded_run Class_js) = Some 1 \<and>
   deferreds (superseded_run Class_js) 1 = Some Fulfilled \<and>
   map fst (requests (superseded_run Class_js)) = [0] \<and>
   calls (step good_env Class_js (superseded_run Class_js) (RouteFail 0)) =
     calls (superseded_run Class_js) @
     [SetBalloonBody Finish cant_build, OpenBalloon Finish, AutoPan Finish] \<and>
   deferreds (superseded_run Part_000) 0 = Some Rejected \<and>
   deferred (superseded_run Part_000) = Some 1 \<and>
   deferreds (superseded_run Part_000) 1 = Some Fulfilled \<and>
   map fst (requests (superseded_run Part_000)) = [0] \<and>
   calls (step good_env Part_000 (superseded_run Part_000) (RouteFail 0)) =
     calls (superseded_run Part_000) @
     [SetBalloonBody Finish cant_build, OpenBalloon Finish, AutoPan Finish]"
  by code_simp

end
